theory Spec2Isabelle
  imports Complex_Main "HOL-Library.AList" "HOL-Library.Sublist"
begin

section \<open>The CARLA/ROS bridge: data model\<close>

text \<open>
  The development embeds \<^verbatim>\<open>carla_ros_bridge/bridge.py\<close> (class \<^verbatim>\<open>CarlaRosBridge\<close>).

  A \<^verbatim>\<open>carla.Actor\<close> handle is a finite tree: an integer id, a type tag, an attribute
  dictionary and an optional parent handle.  The selector for \<^verbatim>\<open>carla_actor.id\<close> is
  called \<open>carla_id\<close>, since \<open>id\<close> is the identity function of HOL.
\<close>

datatype carla_actor =
  CarlaActor (carla_id: int) (type_id: string)
             (attributes: "(string \<times> string) list") (parent: "carla_actor option")

text \<open>
  The classes the bridge instantiates live in other modules; the bridge only chooses among
  them.  An instance is recorded by its class, the handle and the parent object it was
  constructed with.  Constructors are taken to return normally.
\<close>

datatype variant =
    TrafficLight | Traffic | EgoVehicle | Vehicle
  | RgbCamera | DepthCamera | SemanticSegmentationCamera | Camera
  | Lidar | Gnss | CollisionSensor | LaneInvasionSensor | Sensor
  | Spectator | Actor

datatype actor =
  ActorObj (cls: variant) (handle: carla_actor) (actor_parent: "actor option")

datatype pseudo_actor =
    Map (map_topic_prefix: string)
  | ObjectSensor (os_parent: "actor option") (os_topic_prefix: string)
                 (filtered_id: "int option")

text \<open>
  Exceptions.  \<open>RuntimeError\<close> stands for every instance of Python's \<^verbatim>\<open>RuntimeError\<close>
  (subclasses included, which \<^verbatim>\<open>except RuntimeError\<close> catches as well), \<open>KeyError\<close> for what
  a dictionary raises on a missing key, \<open>OtherException\<close> for every other exception; the
  last two are no instances of \<^verbatim>\<open>RuntimeError\<close>.
\<close>

datatype exn = RuntimeError string | KeyError | OtherException string

text \<open>
  What the bridge does to its collaborators and to its registry is recorded, in order, in a
  trace.  The three \<^verbatim>\<open>logwarn\<close> format strings are kept as constructors with the values
  that the bridge itself supplies: \<^verbatim>\<open>"Created Actor-{}(id={}, ..., type={}, ..."\<close>,
  \<^verbatim>\<open>"Remove Actor {}"\<close> and \<^verbatim>\<open>"Update actor {}({}) failed: {}"\<close>.
  A registry mutation records whether the update lock was locked at that moment.
\<close>

datatype log_msg =
    Created_Actor variant int string
  | Remove_Actor int
  | Update_failed variant int string

datatype event =
    Logwarn log_msg
  | Update_clock real
  | Send_msgs
  | Pseudo_update pseudo_actor
  | Actor_update int
  | Registry_insert int bool
  | Registry_delete int bool

text \<open>
  The bridge object.  \<open>actors\<close> is the dictionary \<^verbatim>\<open>self.actors\<close>, kept as an association
  list in insertion order (a dictionary has each key once: \<open>distinct (map fst d)\<close>; the
  properties below hold for whatever order the keys are in); the two locks are \<open>True\<close> when locked,
  by whichever thread; \<open>is_shutdown\<close> is the answer of \<^verbatim>\<open>binding.is_shutdown()\<close>.  The
  timestamp is \<^verbatim>\<open>elapsed_seconds\<close>, a finite float, of which only the order is used.
\<close>

record bridge =
  actors :: "(int \<times> actor) list"
  pseudo_actors :: "pseudo_actor list"
  timestamp_last_run :: real
  update_lock :: bool
  update_child_actors_lock :: bool
  is_shutdown :: bool
  trace :: "event list"

text \<open>
  The collaborators, as far as the bridge depends on them: the configured ego role names
  (\<^verbatim>\<open>binding.get_parameters()['ego_vehicle']['role_name']\<close>, a list of strings), what each
  \<^verbatim>\<open>update()\<close>, \<^verbatim>\<open>binding.update_clock\<close> and \<^verbatim>\<open>binding.send_msgs\<close> does when called
  (\<open>None\<close>: returns, \<open>Some e\<close>: raises \<open>e\<close>; for \<^verbatim>\<open>update()\<close> as a function of the object
  it is called on), and the interpreter.  The source is valid Python 2 and valid
  Python 3, which differ where it deletes from \<^verbatim>\<open>self.actors\<close> inside a loop over
  \<^verbatim>\<open>self.actors.keys()\<close>: \<open>keys_view\<close> is \<open>False\<close> where \<^verbatim>\<open>keys()\<close> returns a list, a
  copy of the keys (Python 2), and \<open>True\<close> where it returns a view of the dictionary
  (Python 3), in which case the iteration step that follows a deletion raises
  \<^verbatim>\<open>RuntimeError\<close>.  Logging and the constructors of the actor classes are taken to return
  normally.
\<close>

record collab =
  role_name :: "string list"
  pseudo_update :: "pseudo_actor \<Rightarrow> exn option"
  actor_update :: "actor \<Rightarrow> exn option"
  update_clock :: "real \<Rightarrow> exn option"
  send_msgs :: "exn option"
  keys_view :: bool

text \<open>
  A call returns a value, raises with the bridge as it is at that moment, or blocks on a
  lock that is already locked (a blocking \<^verbatim>\<open>with self.update_lock\<close>; the call does not
  return unless another thread releases the lock).
\<close>

datatype 'a outcome = Returned 'a | Raised exn bridge | Blocked

definition returned :: "'a outcome \<Rightarrow> 'a option" where
  "returned r = (case r of Returned x \<Rightarrow> Some x | Raised e s \<Rightarrow> None | Blocked \<Rightarrow> None)"

definition raised :: "'a outcome \<Rightarrow> (exn \<times> bridge) option" where
  "raised r = (case r of Returned x \<Rightarrow> None | Raised e s \<Rightarrow> Some (e, s) | Blocked \<Rightarrow> None)"

section \<open>The bridge's operations\<close>

definition startswith :: "string \<Rightarrow> string \<Rightarrow> bool" where
  "startswith s p = prefix p s"

definition keys :: "(int \<times> actor) list \<Rightarrow> int list" where
  "keys d = map fst d"

definition emit :: "event \<Rightarrow> bridge \<Rightarrow> bridge" where
  "emit e s = s\<lparr>trace := trace s @ [e]\<rparr>"

definition logwarn :: "log_msg \<Rightarrow> bridge \<Rightarrow> bridge" where
  "logwarn m s = emit (Logwarn m) s"

text \<open>
  \<^verbatim>\<open>__init__\<close>: empty registry, both locks free, the map and the
  overall object sensor.
\<close>

definition init :: bridge where
  "init = \<lparr>actors = [], pseudo_actors = [Map ''/map'', ObjectSensor None ''objects'' None],
           timestamp_last_run = 0, update_lock = False, update_child_actors_lock = False,
           is_shutdown = False, trace = []\<rparr>"

text \<open>
  \<^verbatim>\<open>with self.update_lock: body\<close>.  The body runs with the lock locked and the lock is
  released after it.
\<close>

definition with_update_lock :: "(bridge \<Rightarrow> bridge) \<Rightarrow> bridge \<Rightarrow> bridge outcome" where
  "with_update_lock body s =
     (if update_lock s then Blocked
      else Returned ((body (s\<lparr>update_lock := True\<rparr>))\<lparr>update_lock := False\<rparr>))"

text \<open>
  The sensor branch of \<^verbatim>\<open>create_actor\<close> (lines 187--205): the camera test, then four
  separate \<^verbatim>\<open>if\<close> statements, each assigning \<^verbatim>\<open>actor\<close> again; the \<^verbatim>\<open>else\<close> belongs to the
  last of them.
\<close>

definition sensor_class :: "string \<Rightarrow> variant option" where
  "sensor_class t =
     (let actor0 = None;
          actor1 = (if startswith t ''sensor.camera'' then
                      (if startswith t ''sensor.camera.rgb'' then Some RgbCamera
                       else if startswith t ''sensor.camera.depth'' then Some DepthCamera
                       else if startswith t ''sensor.camera.semantic_segmentation''
                         then Some SemanticSegmentationCamera
                       else Some Camera)
                    else actor0);
          actor2 = (if startswith t ''sensor.lidar'' then Some Lidar else actor1);
          actor3 = (if startswith t ''sensor.other.gnss'' then Some Gnss else actor2);
          actor4 = (if startswith t ''sensor.other.collision'' then Some CollisionSensor
                    else actor3);
          actor5 = (if startswith t ''sensor.other.lane_invasion'' then Some LaneInvasionSensor
                    else Some Sensor)
      in actor5)"

text \<open>
  \<^verbatim>\<open>attributes.get('role_name') in role_names\<close>: \<^verbatim>\<open>get\<close> gives \<^verbatim>\<open>None\<close> for a missing key,
  which is no element of a list of strings.
\<close>

definition is_ego :: "collab \<Rightarrow> carla_actor \<Rightarrow> bool" where
  "is_ego c ca =
     (case map_of (attributes ca) ''role_name'' of
        None \<Rightarrow> False
      | Some r \<Rightarrow> r \<in> set (role_name c))"

text \<open>
  Lines 168--209: the choice of the class, with the side effect of the ego vehicle.  Were
  \<^verbatim>\<open>actor\<close> still \<^verbatim>\<open>None\<close> after the sensor branch, \<^verbatim>\<open>actor.get_id()\<close> in the log line would
  raise \<^verbatim>\<open>AttributeError\<close>.
\<close>

definition instantiate ::
  "collab \<Rightarrow> carla_actor \<Rightarrow> actor option \<Rightarrow> bridge \<Rightarrow> (actor \<times> bridge) outcome" where
  "instantiate c ca par s =
     (let t = type_id ca in
      if startswith t ''traffic'' then
        (if t = ''traffic.traffic_light'' then Returned (ActorObj TrafficLight ca par, s)
         else Returned (ActorObj Traffic ca par, s))
      else if startswith t ''vehicle'' then
        (if is_ego c ca then
           (let a = ActorObj EgoVehicle ca par in
            case with_update_lock
                   (\<lambda>s. s\<lparr>pseudo_actors := pseudo_actors s @
                             [ObjectSensor (Some a) ''objects'' (Some (carla_id ca))]\<rparr>) s of
              Returned s1 \<Rightarrow> Returned (a, s1)
            | Raised e s1 \<Rightarrow> Raised e s1
            | Blocked \<Rightarrow> Blocked)
         else Returned (ActorObj Vehicle ca par, s))
      else if startswith t ''sensor'' then
        (case sensor_class t of
           Some v \<Rightarrow> Returned (ActorObj v ca par, s)
         | None \<Rightarrow> Raised (OtherException ''AttributeError'') s)
      else if startswith t ''spectator'' then Returned (ActorObj Spectator ca par, s)
      else Returned (ActorObj Actor ca par, s))"

text \<open>Lines 211--218: the log line, the insertion under the update lock, the return.\<close>

definition register ::
  "carla_actor \<Rightarrow> actor \<Rightarrow> bridge \<Rightarrow> (actor \<times> bridge) outcome" where
  "register ca a s =
     (let s1 = logwarn (Created_Actor (cls a) (carla_id ca) (type_id ca)) s in
      case with_update_lock
             (\<lambda>s. emit (Registry_insert (carla_id ca) (update_lock s))
                    (s\<lparr>actors := AList.update (carla_id ca) a (actors s)\<rparr>)) s1 of
        Returned s2 \<Rightarrow> Returned (a, s2)
      | Raised e s2 \<Rightarrow> Raised e s2
      | Blocked \<Rightarrow> Blocked)"

text \<open>
  \<^verbatim>\<open>create_actor\<close>: the parent is looked up in the registry by id and created first when it
  is not there; the recursion follows the parent handles.
\<close>

fun create_actor :: "collab \<Rightarrow> carla_actor \<Rightarrow> bridge \<Rightarrow> (actor \<times> bridge) outcome" where
  "create_actor c (CarlaActor i t attrs par) s =
     (case (case par of
              None \<Rightarrow> Returned (None, s)
            | Some p \<Rightarrow>
                (case map_of (actors s) (carla_id p) of
                   Some a \<Rightarrow> Returned (Some a, s)
                 | None \<Rightarrow>
                     (case create_actor c p s of
                        Returned (a, s1) \<Rightarrow> Returned (Some a, s1)
                      | Raised e s1 \<Rightarrow> Raised e s1
                      | Blocked \<Rightarrow> Blocked))) of
        Returned (parent_obj, s1) \<Rightarrow>
          (case instantiate c (CarlaActor i t attrs par) parent_obj s1 of
             Returned (a, s2) \<Rightarrow> register (CarlaActor i t attrs par) a s2
           | Raised e s2 \<Rightarrow> Raised e s2
           | Blocked \<Rightarrow> Blocked)
      | Raised e s1 \<Rightarrow> Raised e s1
      | Blocked \<Rightarrow> Blocked)"

text \<open>
  \<^verbatim>\<open>update_actors\<close>, first loop: create what is live and not
  registered.
\<close>

fun add_new :: "collab \<Rightarrow> carla_actor list \<Rightarrow> bridge \<Rightarrow> bridge outcome" where
  "add_new c [] s = Returned s"
| "add_new c (a # as) s =
     (if carla_id a \<notin> set (keys (actors s)) then
        (case create_actor c a s of
           Returned (obj, s1) \<Rightarrow> add_new c as s1
         | Raised e s1 \<Rightarrow> Raised e s1
         | Blocked \<Rightarrow> Blocked)
      else add_new c as s)"

text \<open>
  \<^verbatim>\<open>if id_to_delete:\<close> is false for \<^verbatim>\<open>None\<close>
  and for the integer 0.
\<close>

definition truthy :: "int option \<Rightarrow> bool" where
  "truthy v = (case v of None \<Rightarrow> False | Some n \<Rightarrow> n \<noteq> 0)"

text \<open>
  \<^verbatim>\<open>update_actors\<close>, last loop, over the keys of the registry as they are when the loop
  starts.  \<^verbatim>\<open>del\<close> raises \<^verbatim>\<open>KeyError\<close> for a key that is not there.  Where \<^verbatim>\<open>keys()\<close> is a
  view, the step to the next key after a deletion raises.
\<close>

fun remove_old :: "collab \<Rightarrow> int list \<Rightarrow> int list \<Rightarrow> bridge \<Rightarrow> bridge outcome" where
  "remove_old c carla_actor_ids [] s = Returned s"
| "remove_old c carla_actor_ids (actor_id # rest) s =
     (let id_to_delete = (if actor_id \<notin> set carla_actor_ids then Some actor_id else None) in
      if truthy id_to_delete then
        (let s1 = logwarn (Remove_Actor actor_id) s in
         if actor_id \<in> set (keys (actors s1)) then
           (let s2 = emit (Registry_delete actor_id (update_lock s1))
                       (s1\<lparr>actors := AList.delete actor_id (actors s1)\<rparr>) in
            if keys_view c
            then Raised (RuntimeError ''dictionary changed size during iteration'') s2
            else remove_old c carla_actor_ids rest s2)
         else Raised KeyError s1)
      else remove_old c carla_actor_ids rest s)"

definition update_actors :: "collab \<Rightarrow> carla_actor list \<Rightarrow> bridge \<Rightarrow> bridge outcome" where
  "update_actors c carla_actors s =
     (case add_new c carla_actors s of
        Returned s1 \<Rightarrow> remove_old c (map carla_id carla_actors) (keys (actors s1)) s1
      | Raised e s1 \<Rightarrow> Raised e s1
      | Blocked \<Rightarrow> Blocked)"

text \<open>
  \<^verbatim>\<open>_carla_update_child_actors\<close>: the reconciliation under its own lock, taken without
  blocking.  The pause of one second has no counterpart here.
\<close>

definition carla_update_child_actors ::
  "collab \<Rightarrow> carla_actor list \<Rightarrow> bridge \<Rightarrow> bridge outcome" where
  "carla_update_child_actors c carla_actors s =
     (if \<not> is_shutdown s then
        (if \<not> update_child_actors_lock s then
           (case update_actors c carla_actors (s\<lparr>update_child_actors_lock := True\<rparr>) of
              Returned s1 \<Rightarrow> Returned (s1\<lparr>update_child_actors_lock := False\<rparr>)
            | Raised e s1 \<Rightarrow> Raised e s1
            | Blocked \<Rightarrow> Blocked)
         else Returned s)
      else Returned s)"

text \<open>
  \<^verbatim>\<open>update\<close>, first loop: the pseudo actors, in list order, with no
  handler.
\<close>

fun update_pseudo :: "collab \<Rightarrow> pseudo_actor list \<Rightarrow> bridge \<Rightarrow> bridge outcome" where
  "update_pseudo c [] s = Returned s"
| "update_pseudo c (p # ps) s =
     (let s1 = emit (Pseudo_update p) s in
      case pseudo_update c p of
        None \<Rightarrow> update_pseudo c ps s1
      | Some e \<Rightarrow> Raised e s1)"

text \<open>
  \<^verbatim>\<open>update\<close>, second loop: the registry, key by key, with the handler for
  \<^verbatim>\<open>RuntimeError\<close> around the call.
\<close>

fun update_carla :: "collab \<Rightarrow> int list \<Rightarrow> bridge \<Rightarrow> bridge outcome" where
  "update_carla c [] s = Returned s"
| "update_carla c (actor_id # rest) s =
     (case map_of (actors s) actor_id of
        None \<Rightarrow> Raised KeyError s
      | Some a \<Rightarrow>
          (let s1 = emit (Actor_update actor_id) s in
           case actor_update c a of
             None \<Rightarrow> update_carla c rest s1
           | Some (RuntimeError m) \<Rightarrow>
               update_carla c rest (logwarn (Update_failed (cls a) actor_id m) s1)
           | Some KeyError \<Rightarrow> Raised KeyError s1
           | Some (OtherException m) \<Rightarrow> Raised (OtherException m) s1))"

definition update :: "collab \<Rightarrow> bridge \<Rightarrow> bridge outcome" where
  "update c s =
     (case update_pseudo c (pseudo_actors s) s of
        Returned s1 \<Rightarrow> update_carla c (keys (actors s1)) s1
      | Raised e s1 \<Rightarrow> Raised e s1
      | Blocked \<Rightarrow> Blocked)"

text \<open>
  \<^verbatim>\<open>_carla_time_tick\<close>: \<^verbatim>\<open>acquire(False)\<close> succeeds when the lock is free; the release is
  the last statement of the block, reached when nothing before it raises.
\<close>

definition carla_time_tick :: "collab \<Rightarrow> real \<Rightarrow> bridge \<Rightarrow> bridge outcome" where
  "carla_time_tick c elapsed_seconds s =
     (if \<not> is_shutdown s then
        (if \<not> update_lock s then
           (let s1 = s\<lparr>update_lock := True\<rparr> in
            if timestamp_last_run s1 < elapsed_seconds then
              (let s2 = s1\<lparr>timestamp_last_run := elapsed_seconds\<rparr>;
                   s3 = emit (Update_clock elapsed_seconds) s2 in
               case update_clock c elapsed_seconds of
                 Some e \<Rightarrow> Raised e s3
               | None \<Rightarrow>
                   (case update c s3 of
                      Returned s4 \<Rightarrow>
                        (let s5 = emit Send_msgs s4 in
                         case send_msgs c of
                           Some e \<Rightarrow> Raised e s5
                         | None \<Rightarrow> Returned (s5\<lparr>update_lock := False\<rparr>))
                    | Raised e s4 \<Rightarrow> Raised e s4
                    | Blocked \<Rightarrow> Blocked))
            else Returned (s1\<lparr>update_lock := False\<rparr>))
         else Returned s)
      else Returned s)"

section \<open>Derived notions and sample inputs\<close>

text \<open>
  The definitions above are the embedding of the source.  The ones of this section serve to
  state and to prove the properties: observers of outcomes, closed forms of what the
  operations compute (each proved equal to the operation below), predicates on traces, and
  sample collaborators and handles.
\<close>

text \<open>The bridge a call leaves behind, whether it returned or raised.\<close>

definition final :: "bridge outcome \<Rightarrow> bridge option" where
  "final r = (case r of Returned s \<Rightarrow> Some s | Raised e s \<Rightarrow> Some s | Blocked \<Rightarrow> None)"

definition created_class :: "(actor \<times> bridge) outcome \<Rightarrow> variant option" where
  "created_class r = map_option (cls \<circ> fst) (returned r)"

text \<open>
  Collaborators that never raise, with \<^verbatim>\<open>hero\<close> as the only ego role name, for either
  interpreter.
\<close>

definition quiet :: "bool \<Rightarrow> collab" where
  "quiet kv = \<lparr>role_name = [''hero''], pseudo_update = (\<lambda>p. None),
               actor_update = (\<lambda>a. None), update_clock = (\<lambda>t. None), send_msgs = None,
               keys_view = kv\<rparr>"

definition sensor_handle :: "string \<Rightarrow> carla_actor" where
  "sensor_handle tag = CarlaActor 5 tag [] None"

definition walker :: "int \<Rightarrow> actor" where
  "walker i = ActorObj Actor (CarlaActor i ''walker.pedestrian.0001'' [] None) None"

definition registry_of :: "(int \<times> actor) list \<Rightarrow> bridge" where
  "registry_of d = init\<lparr>actors := d\<rparr>"

text \<open>
  An update that the pass survives: the entity is registered and its
  \<^verbatim>\<open>update()\<close> returns or raises a
  \<^verbatim>\<open>RuntimeError\<close>.
\<close>

definition tolerated :: "collab \<Rightarrow> (int \<times> actor) list \<Rightarrow> int \<Rightarrow> bool" where
  "tolerated c d k =
     (case map_of d k of
        None \<Rightarrow> False
      | Some a \<Rightarrow> (case actor_update c a of
                    None \<Rightarrow> True
                  | Some (RuntimeError m) \<Rightarrow> True
                  | Some KeyError \<Rightarrow> False
                  | Some (OtherException m) \<Rightarrow> False))"

text \<open>
  What the pass does for one registry key: the call, and the warning when the call raised a
  \<^verbatim>\<open>RuntimeError\<close>.
\<close>

definition actor_events :: "collab \<Rightarrow> (int \<times> actor) list \<Rightarrow> int \<Rightarrow> event list" where
  "actor_events c d k =
     (case map_of d k of
        None \<Rightarrow> []
      | Some a \<Rightarrow> Actor_update k #
          (case actor_update c a of
             Some (RuntimeError m) \<Rightarrow> [Logwarn (Update_failed (cls a) k m)]
           | _ \<Rightarrow> []))"

definition is_runtime_error :: "exn \<Rightarrow> bool" where
  "is_runtime_error e = (case e of RuntimeError m \<Rightarrow> True | _ \<Rightarrow> False)"

text \<open>The bridge after further events.\<close>

definition logged :: "bridge \<Rightarrow> event list \<Rightarrow> bridge" where
  "logged s evs = s\<lparr>trace := trace s @ evs\<rparr>"

text \<open>The events of a whole pass in which nothing propagates.\<close>

definition pass_events :: "collab \<Rightarrow> bridge \<Rightarrow> event list" where
  "pass_events c s =
     map Pseudo_update (pseudo_actors s) @ concat (map (actor_events c (actors s)) (keys (actors s)))"

text \<open>No pseudo actor raises and every registry entity is tolerated.\<close>

definition nothing_propagates :: "collab \<Rightarrow> bridge \<Rightarrow> bool" where
  "nothing_propagates c s =
     (list_all (\<lambda>p. pseudo_update c p = None) (pseudo_actors s) \<and>
      list_all (tolerated c (actors s)) (keys (actors s)))"

text \<open>
  Consecutive invocations of the tick callback; an invocation that raises leaves the bridge
  as it was at the raise, and the next invocation starts from there.
\<close>

fun ticks :: "collab \<Rightarrow> real list \<Rightarrow> bridge \<Rightarrow> bridge option" where
  "ticks c [] s = Some s"
| "ticks c (t # ts) s =
     (case final (carla_time_tick c t s) of
        None \<Rightarrow> None
      | Some s' \<Rightarrow> ticks c ts s')"

text \<open>
  Collaborators whose map publisher raises, and collaborators where the entity of one id
  raises a given exception.
\<close>

definition map_fails :: collab where
  "map_fails = (quiet False)\<lparr>pseudo_update :=
      (\<lambda>p. case p of Map tp \<Rightarrow> Some (RuntimeError ''no map'') | ObjectSensor par tp f \<Rightarrow> None)\<rparr>"

definition actor_fails :: "int \<Rightarrow> exn \<Rightarrow> collab" where
  "actor_fails i e = (quiet False)\<lparr>actor_update :=
      (\<lambda>a. if carla_id (handle a) = i then Some e else None)\<rparr>"

text \<open>
  The bridge after a tick at \<open>t\<close> that ran the whole pass without an error.
\<close>

definition ran :: "collab \<Rightarrow> real \<Rightarrow> bridge \<Rightarrow> bridge" where
  "ran c t s = s\<lparr>timestamp_last_run := t,
                 trace := trace s @ Update_clock t # pass_events c s @ [Send_msgs]\<rparr>"

text \<open>Collaborators whose message flush raises.\<close>

definition send_fails :: collab where
  "send_fails = (quiet False)\<lparr>send_msgs := Some (OtherException ''ROSException'')\<rparr>"

text \<open>
  The class that \<^verbatim>\<open>create_actor\<close> chooses, as one expression;
  \<open>create_step\<close> below shows that \<open>instantiate\<close> computes it.
\<close>

definition class_of :: "collab \<Rightarrow> carla_actor \<Rightarrow> variant" where
  "class_of c ca =
     (let t = type_id ca in
      if startswith t ''traffic'' then
        (if t = ''traffic.traffic_light'' then TrafficLight else Traffic)
      else if startswith t ''vehicle'' then (if is_ego c ca then EgoVehicle else Vehicle)
      else if startswith t ''sensor'' then
        (if startswith t ''sensor.other.lane_invasion'' then LaneInvasionSensor else Sensor)
      else if startswith t ''spectator'' then Spectator
      else Actor)"

text \<open>
  What \<^verbatim>\<open>create_actor\<close> does once the parent object is known.
\<close>

definition create_here ::
  "collab \<Rightarrow> carla_actor \<Rightarrow> actor option \<Rightarrow> bridge \<Rightarrow> (actor \<times> bridge) outcome" where
  "create_here c ca par s =
     (case instantiate c ca par s of
        Returned (a, s2) \<Rightarrow> register ca a s2
      | Raised e s2 \<Rightarrow> Raised e s2
      | Blocked \<Rightarrow> Blocked)"

text \<open>
  The unregistered ancestors that \<^verbatim>\<open>create_actor\<close> creates before the
  handle itself, oldest first: the chain of parents up to the first one whose id is
  registered.
\<close>

fun pending :: "(int \<times> actor) list \<Rightarrow> carla_actor \<Rightarrow> carla_actor list" where
  "pending d (CarlaActor i t attrs par) =
     (case par of
        None \<Rightarrow> []
      | Some p \<Rightarrow> (case map_of d (carla_id p) of Some a \<Rightarrow> [] | None \<Rightarrow> pending d p @ [p]))"

text \<open>
  The object that \<^verbatim>\<open>create_actor\<close> returns for a handle, given the
  registry at the call.
\<close>

fun built :: "collab \<Rightarrow> (int \<times> actor) list \<Rightarrow> carla_actor \<Rightarrow> actor" where
  "built c d (CarlaActor i t attrs par) =
     ActorObj (class_of c (CarlaActor i t attrs par)) (CarlaActor i t attrs par)
       (case par of
          None \<Rightarrow> None
        | Some p \<Rightarrow> (case map_of d (carla_id p) of Some a \<Rightarrow> Some a | None \<Rightarrow> Some (built c d p)))"

text \<open>
  The effect of creating one handle: the registration, the trace, and the object sensor of an
  ego vehicle.
\<close>

definition created :: "collab \<Rightarrow> (int \<times> actor) list \<Rightarrow> bridge \<Rightarrow> carla_actor \<Rightarrow> bridge" where
  "created c d s ca =
     s\<lparr>actors := AList.update (carla_id ca) (built c d ca) (actors s),
       pseudo_actors := pseudo_actors s @
         (if class_of c ca = EgoVehicle
          then [ObjectSensor (Some (built c d ca)) ''objects'' (Some (carla_id ca))] else []),
       trace := trace s @
         [Logwarn (Created_Actor (class_of c ca) (carla_id ca) (type_id ca)),
          Registry_insert (carla_id ca) True]\<rparr>"

text \<open>
  The first loop of \<^verbatim>\<open>update_actors\<close> when the update lock is free.
\<close>

fun added :: "collab \<Rightarrow> carla_actor list \<Rightarrow> bridge \<Rightarrow> bridge" where
  "added c [] s = s"
| "added c (a # as) s =
     added c as
       (if carla_id a \<in> set (keys (actors s)) then s
        else foldl (created c (actors s)) s (pending (actors s) a @ [a]))"

text \<open>
  Every deletion in a list of events directly follows the warning that names its id;
  \<open>prev\<close> is the event before the list.
\<close>

fun logged_before :: "event option \<Rightarrow> event list \<Rightarrow> bool" where
  "logged_before prev [] = True"
| "logged_before prev (e # es) =
     ((case e of
         Registry_delete k b \<Rightarrow> prev = Some (Logwarn (Remove_Actor k))
       | _ \<Rightarrow> True) \<and>
      logged_before (Some e) es)"

fun is_delete :: "event \<Rightarrow> bool" where
  "is_delete (Registry_delete k b) = True"
| "is_delete e = False"

text \<open>Sample handles: an ego vehicle, a vehicle attached to it, and pedestrians.\<close>

definition hero_car :: carla_actor where
  "hero_car = CarlaActor 1 ''vehicle.tesla.model3'' [(''role_name'', ''hero'')] None"

definition towed_car :: carla_actor where
  "towed_car = CarlaActor 2 ''vehicle.carlamotors.carlacola'' [(''role_name'', ''npc'')]
                 (Some hero_car)"

definition pedestrian :: "int \<Rightarrow> carla_actor" where
  "pedestrian i = CarlaActor i ''walker.pedestrian.0001'' [] None"

text \<open>The object sensors appended for the ego vehicles among the handles created.\<close>

definition object_sensors ::
  "collab \<Rightarrow> (int \<times> actor) list \<Rightarrow> carla_actor list \<Rightarrow> pseudo_actor list" where
  "object_sensors c d cas =
     concat (map (\<lambda>ca. if class_of c ca = EgoVehicle
                        then [ObjectSensor (Some (built c d ca)) ''objects'' (Some (carla_id ca))]
                        else []) cas)"

text \<open>
  All the ancestors of a handle, oldest first, and all the handles of an enumeration.
\<close>

fun ancestors :: "carla_actor \<Rightarrow> carla_actor list" where
  "ancestors (CarlaActor i t attrs par) =
     (case par of None \<Rightarrow> [] | Some p \<Rightarrow> ancestors p @ [p])"

definition handles :: "carla_actor list \<Rightarrow> carla_actor list" where
  "handles E = concat (map (\<lambda>a. ancestors a @ [a]) E)"

text \<open>The ids inserted into the registry, in the order of the insertions.\<close>

fun inserts :: "event list \<Rightarrow> int list" where
  "inserts [] = []"
| "inserts (Registry_insert k b # es) = k # inserts es"
| "inserts (e # es) = inserts es"

text \<open>In a list of ids, no \<open>b\<close> comes before the first \<open>a\<close>.\<close>

fun preceded :: "int \<Rightarrow> int \<Rightarrow> int list \<Rightarrow> bool" where
  "preceded a b [] = True"
| "preceded a b (x # xs) = (x \<noteq> b \<and> (x = a \<or> preceded a b xs))"

text \<open>A depth camera attached to the ego vehicle.\<close>

definition depth_camera :: carla_actor where
  "depth_camera = CarlaActor 2 ''sensor.camera.depth'' [] (Some hero_car)"

section \<open>Evaluation on sample inputs\<close>

lemmas bridge_defs =
  instantiate_def register_def sensor_class_def startswith_def with_update_lock_def
  logwarn_def emit_def init_def quiet_def returned_def raised_def final_def created_class_def
  update_actors_def keys_def truthy_def is_ego_def carla_update_child_actors_def
  walker_def registry_of_def update_def carla_time_tick_def

lemma sensor_class_eq:
  "sensor_class t =
     Some (if startswith t ''sensor.other.lane_invasion'' then LaneInvasionSensor else Sensor)"
  by (simp add: sensor_class_def Let_def)

text \<open>
  C1 (classification of the type tags).  The claim has \<^verbatim>\<open>sensor.camera.rgb\<close> created as an
  RGB camera, and likewise the other specific sensors, with the generic sensor only where no
  specific test matched.  In the code the \<^verbatim>\<open>else\<close> that assigns the generic sensor belongs
  to the lane-invasion test alone, so it overwrites what the earlier tests assigned (lemma
  \<open>sensor_class_eq\<close>): handles tagged as RGB, depth or semantic-segmentation camera, lidar,
  GNSS or collision sensor are all created as the generic \<open>Sensor\<close>; only the lane-invasion
  sensor gets its own class.
\<close>

theorem specific_sensors_created_as_generic_sensor:
  "created_class (create_actor (quiet False) (sensor_handle ''sensor.camera.rgb'') init)
     = Some Sensor \<and>
   created_class (create_actor (quiet False) (sensor_handle ''sensor.camera.depth'') init)
     = Some Sensor \<and>
   created_class (create_actor (quiet False)
       (sensor_handle ''sensor.camera.semantic_segmentation'') init)
     = Some Sensor \<and>
   created_class (create_actor (quiet False) (sensor_handle ''sensor.lidar.ray_cast'') init)
     = Some Sensor \<and>
   created_class (create_actor (quiet False) (sensor_handle ''sensor.other.gnss'') init)
     = Some Sensor \<and>
   created_class (create_actor (quiet False) (sensor_handle ''sensor.other.collision'') init)
     = Some Sensor \<and>
   created_class (create_actor (quiet False) (sensor_handle ''sensor.other.lane_invasion'') init)
     = Some LaneInvasionSensor"
  by (simp add: bridge_defs sensor_handle_def)

text \<open>
  C2 (reconciliation completeness).  The claim has every registered id that is absent from
  the live enumeration removed, id 0 included.  In the code the removal is guarded by the
  truth value of the id: with the registry holding id 0 and an empty enumeration, the pass
  returns with id 0 still registered, under either interpreter.
\<close>

theorem update_actors_keeps_absent_id_zero:
  "map_option (keys \<circ> actors) (returned (update_actors (quiet False) [] (registry_of [(0, walker 0)])))
     = Some [0] \<and>
   map_option (keys \<circ> actors) (returned (update_actors (quiet True) [] (registry_of [(0, walker 0)])))
     = Some [0]"
  by (simp add: bridge_defs)

text \<open>
  C7 (registry mutations under the update lock).  The claim has insertions and removals
  both made while the update lock is held.  The reconciliation callback, started with both
  locks free, a registry holding id 2 and an empty enumeration, deletes the entry of id 2
  while the update lock is not locked, under either interpreter.
\<close>

theorem removal_without_update_lock:
  "map_option trace (final (carla_update_child_actors (quiet False) [] (registry_of [(2, walker 2)])))
     = Some [Logwarn (Remove_Actor 2), Registry_delete 2 False] \<and>
   map_option trace (final (carla_update_child_actors (quiet True) [] (registry_of [(2, walker 2)])))
     = Some [Logwarn (Remove_Actor 2), Registry_delete 2 False]"
  by (simp add: bridge_defs AList.delete_eq)

section \<open>The update pass\<close>

lemma logged_simps [simp]:
  "actors (logged s evs) = actors s"
  "pseudo_actors (logged s evs) = pseudo_actors s"
  "timestamp_last_run (logged s evs) = timestamp_last_run s"
  "update_lock (logged s evs) = update_lock s"
  "update_child_actors_lock (logged s evs) = update_child_actors_lock s"
  "is_shutdown (logged s evs) = is_shutdown s"
  "trace (logged s evs) = trace s @ evs"
  "logged (logged s evs) evs' = logged s (evs @ evs')"
  "logged s [] = s"
  by (simp_all add: logged_def)

lemma emit_logged: "emit e s = logged s [e]"
  by (simp add: emit_def logged_def)

lemma logwarn_logged: "logwarn m s = logged s [Logwarn m]"
  by (simp add: logwarn_def emit_logged)

lemma update_pseudo_ok:
  "\<forall>p\<in>set ps. pseudo_update c p = None \<Longrightarrow>
   update_pseudo c ps s = Returned (logged s (map Pseudo_update ps))"
  by (induction ps arbitrary: s) (simp_all add: emit_logged)

lemma update_pseudo_raises:
  "\<forall>q\<in>set ps1. pseudo_update c q = None \<Longrightarrow> pseudo_update c p = Some e \<Longrightarrow>
   update_pseudo c (ps1 @ p # ps2) s = Raised e (logged s (map Pseudo_update (ps1 @ [p])))"
  by (induction ps1 arbitrary: s) (simp_all add: emit_logged)

lemma update_carla_step_ok:
  assumes "tolerated c (actors s) k"
  shows "update_carla c (k # ks) s = update_carla c ks (logged s (actor_events c (actors s) k))"
proof -
  from assms obtain a where a: "map_of (actors s) k = Some a"
    by (auto simp: tolerated_def split: option.splits)
  from assms a have "actor_update c a = None \<or> (\<exists>m. actor_update c a = Some (RuntimeError m))"
    by (auto simp: tolerated_def split: option.splits exn.splits)
  then show ?thesis
  proof
    assume "actor_update c a = None"
    with a show ?thesis by (simp add: emit_logged actor_events_def)
  next
    assume "\<exists>m. actor_update c a = Some (RuntimeError m)"
    then obtain m where "actor_update c a = Some (RuntimeError m)" ..
    with a show ?thesis by (simp add: emit_logged logwarn_logged actor_events_def)
  qed
qed

lemma update_carla_ok:
  "\<forall>k\<in>set ks. tolerated c (actors s) k \<Longrightarrow>
   update_carla c ks s = Returned (logged s (concat (map (actor_events c (actors s)) ks)))"
proof (induction ks arbitrary: s)
  case Nil
  show ?case by simp
next
  case (Cons k ks)
  have "update_carla c (k # ks) s = update_carla c ks (logged s (actor_events c (actors s) k))"
    using Cons.prems by (simp add: update_carla_step_ok del: update_carla.simps)
  also have "\<dots> = Returned (logged (logged s (actor_events c (actors s) k))
      (concat (map (actor_events c (actors s)) ks)))"
    using Cons.IH [of "logged s (actor_events c (actors s) k)"] Cons.prems by simp
  finally show ?case by simp
qed

lemma update_carla_stops:
  assumes "map_of (actors s) k = Some a" and "actor_update c a = Some e"
    and "\<not> is_runtime_error e"
  shows "update_carla c (k # ks) s = Raised e (logged s [Actor_update k])"
  using assms by (cases e) (simp_all add: emit_logged is_runtime_error_def)

lemma update_carla_raises:
  assumes "\<forall>j\<in>set ks1. tolerated c (actors s) j"
    and "map_of (actors s) k = Some a" and "actor_update c a = Some e"
    and "\<not> is_runtime_error e"
  shows "update_carla c (ks1 @ k # ks2) s =
     Raised e (logged s (concat (map (actor_events c (actors s)) ks1) @ [Actor_update k]))"
  using assms
proof (induction ks1 arbitrary: s)
  case Nil
  then show ?case by (simp add: update_carla_stops del: update_carla.simps)
next
  case (Cons j ks1)
  have "update_carla c ((j # ks1) @ k # ks2) s =
        update_carla c (ks1 @ k # ks2) (logged s (actor_events c (actors s) j))"
    using Cons.prems by (simp add: update_carla_step_ok del: update_carla.simps)
  also have "\<dots> = Raised e (logged (logged s (actor_events c (actors s) j))
      (concat (map (actor_events c (actors s)) ks1) @ [Actor_update k]))"
    using Cons.IH [of "logged s (actor_events c (actors s) j)"] Cons.prems by simp
  finally show ?case by simp
qed

lemma first_failure:
  "(\<forall>x\<in>set xs. P x) \<or> (\<exists>xs1 x xs2. xs = xs1 @ x # xs2 \<and> (\<forall>y\<in>set xs1. P y) \<and> \<not> P x)"
proof (induction xs)
  case Nil
  show ?case by simp
next
  case (Cons z zs)
  show ?case
  proof (cases "P z")
    case False
    then have "z # zs = [] @ z # zs \<and> (\<forall>y\<in>set []. P y) \<and> \<not> P z" by simp
    then show ?thesis by blast
  next
    case True
    from Cons.IH show ?thesis
    proof
      assume "\<forall>x\<in>set zs. P x"
      with True show ?thesis by simp
    next
      assume "\<exists>xs1 x xs2. zs = xs1 @ x # xs2 \<and> (\<forall>y\<in>set xs1. P y) \<and> \<not> P x"
      then obtain xs1 x xs2 where "zs = xs1 @ x # xs2" "\<forall>y\<in>set xs1. P y" "\<not> P x"
        by blast
      with True have "z # zs = (z # xs1) @ x # xs2 \<and> (\<forall>y\<in>set (z # xs1). P y) \<and> \<not> P x"
        by simp
      then show ?thesis by blast
    qed
  qed
qed

lemma not_tolerated_raises:
  assumes "k \<in> set (keys d)" and "\<not> tolerated c d k"
  obtains a e where "map_of d k = Some a" "actor_update c a = Some e" "\<not> is_runtime_error e"
proof -
  from assms(1) obtain a where a: "map_of d k = Some a"
    by (cases "map_of d k") (auto simp: keys_def map_of_eq_None_iff)
  with assms(2) obtain e where "actor_update c a = Some e" "\<not> is_runtime_error e"
    by (cases "actor_update c a")
       (auto simp: tolerated_def is_runtime_error_def split: exn.splits)
  with a that show thesis by blast
qed

lemma update_completes:
  assumes "nothing_propagates c s"
  shows "update c s = Returned (logged s (pass_events c s))"
proof -
  from assms have p: "\<forall>p\<in>set (pseudo_actors s). pseudo_update c p = None"
    and k: "\<forall>k\<in>set (keys (actors s)). tolerated c (actors s) k"
    by (simp_all add: nothing_propagates_def list_all_iff)
  show ?thesis
    using update_pseudo_ok [OF p, of s]
      update_carla_ok [of "keys (actors s)" c "logged s (map Pseudo_update (pseudo_actors s))"] k
    by (simp add: update_def pass_events_def)
qed

lemma update_outcome:
  "(nothing_propagates c s \<and> update c s = Returned (logged s (pass_events c s))) \<or>
   (\<not> nothing_propagates c s \<and> (\<exists>e evs. update c s = Raised e (logged s evs)))"
proof (cases "nothing_propagates c s")
  case True
  then show ?thesis by (simp add: update_completes)
next
  case False
  have "\<exists>e evs. update c s = Raised e (logged s evs)"
  proof (cases "\<forall>p\<in>set (pseudo_actors s). pseudo_update c p = None")
    case pseudo_fails: False
    with first_failure [of "pseudo_actors s" "\<lambda>p. pseudo_update c p = None"]
    obtain ps1 p ps2 where d: "pseudo_actors s = ps1 @ p # ps2"
      "\<forall>q\<in>set ps1. pseudo_update c q = None" "pseudo_update c p \<noteq> None"
      by blast
    then obtain e where "pseudo_update c p = Some e" by auto
    with d show ?thesis
      using update_pseudo_raises [of ps1 c p e ps2 s] by (simp add: update_def) blast
  next
    case pseudo_ok: True
    with False have "\<not> (\<forall>k\<in>set (keys (actors s)). tolerated c (actors s) k)"
      by (simp add: nothing_propagates_def list_all_iff)
    with first_failure [of "keys (actors s)" "tolerated c (actors s)"]
    obtain ks1 k ks2 where d: "keys (actors s) = ks1 @ k # ks2"
      "\<forall>j\<in>set ks1. tolerated c (actors s) j" "\<not> tolerated c (actors s) k"
      by blast
    from d(1) have "k \<in> set (keys (actors s))" by simp
    then obtain a e where ae: "map_of (actors s) k = Some a" "actor_update c a = Some e"
      "\<not> is_runtime_error e"
      using d(3) not_tolerated_raises [of k "actors s" c] by blast
    show ?thesis
      using update_pseudo_ok [OF pseudo_ok, of s] d(1,2) ae
        update_carla_raises [of ks1 c "logged s (map Pseudo_update (pseudo_actors s))" k a e ks2]
      by (simp add: update_def) blast
  qed
  with False show ?thesis by simp
qed




text \<open>
  C10 (narrowness of the catch).  An exception raised by a pseudo actor's \<^verbatim>\<open>update()\<close>
  (the first one that raises, the ones before it having returned) leaves the pass as that
  exception.  An exception that is no \<^verbatim>\<open>RuntimeError\<close>, raised by a registry entity's
  \<^verbatim>\<open>update()\<close> (the ones before it having returned or raised a \<^verbatim>\<open>RuntimeError\<close>), leaves
  the pass as that exception.  The pass returns exactly when no pseudo actor raises and
  every registry entity returns or raises a \<^verbatim>\<open>RuntimeError\<close>.
\<close>

theorem update_catches_only_registry_runtime_errors:
  "(pseudo_actors s = ps1 @ p # ps2 \<and> (\<forall>q\<in>set ps1. pseudo_update c q = None) \<and>
      pseudo_update c p = Some e \<longrightarrow> (\<exists>s'. update c s = Raised e s')) \<and>
   ((\<forall>q\<in>set (pseudo_actors s). pseudo_update c q = None) \<and>
      keys (actors s) = ks1 @ k # ks2 \<and> (\<forall>j\<in>set ks1. tolerated c (actors s) j) \<and>
      map_of (actors s) k = Some a \<and> actor_update c a = Some e' \<and> \<not> is_runtime_error e'
      \<longrightarrow> (\<exists>s'. update c s = Raised e' s')) \<and>
   ((\<exists>s'. update c s = Returned s') \<longleftrightarrow>
      (\<forall>q\<in>set (pseudo_actors s). pseudo_update c q = None) \<and>
      (\<forall>k\<in>set (keys (actors s)). tolerated c (actors s) k))"
proof (intro conjI impI)
  assume "pseudo_actors s = ps1 @ p # ps2 \<and> (\<forall>q\<in>set ps1. pseudo_update c q = None) \<and>
      pseudo_update c p = Some e"
  then show "\<exists>s'. update c s = Raised e s'"
    using update_pseudo_raises [of ps1 c p e ps2 s] by (simp add: update_def)
next
  assume h: "(\<forall>q\<in>set (pseudo_actors s). pseudo_update c q = None) \<and>
      keys (actors s) = ks1 @ k # ks2 \<and> (\<forall>j\<in>set ks1. tolerated c (actors s) j) \<and>
      map_of (actors s) k = Some a \<and> actor_update c a = Some e' \<and> \<not> is_runtime_error e'"
  then have "update_pseudo c (pseudo_actors s) s =
      Returned (logged s (map Pseudo_update (pseudo_actors s)))"
    by (simp add: update_pseudo_ok)
  with h show "\<exists>s'. update c s = Raised e' s'"
    using update_carla_raises [of ks1 c "logged s (map Pseudo_update (pseudo_actors s))" k a e' ks2]
    by (simp add: update_def)
next
  show "(\<exists>s'. update c s = Returned s') \<longleftrightarrow>
      (\<forall>q\<in>set (pseudo_actors s). pseudo_update c q = None) \<and>
      (\<forall>k\<in>set (keys (actors s)). tolerated c (actors s) k)"
    using update_outcome [of c s]
    by (auto simp: nothing_propagates_def list_all_iff)
qed

theorem update_catches_only_registry_runtime_errors_witness:
  "map_option fst (raised (update map_fails init)) = Some (RuntimeError ''no map'') \<and>
   map_option fst (raised (update (actor_fails 2 (OtherException ''ValueError''))
      (registry_of [(1, walker 1), (2, walker 2), (3, walker 3)])))
     = Some (OtherException ''ValueError'') \<and>
   map_option trace (returned (update (actor_fails 2 (RuntimeError ''destroyed''))
      (registry_of [(1, walker 1), (2, walker 2), (3, walker 3)])))
     = Some [Pseudo_update (Map ''/map''), Pseudo_update (ObjectSensor None ''objects'' None),
             Actor_update 1, Actor_update 2,
             Logwarn (Update_failed Actor 2 ''destroyed''), Actor_update 3]"
proof -
  have "\<exists>s'. update map_fails init = Raised (RuntimeError ''no map'') s'"
    using update_catches_only_registry_runtime_errors
      [where s = init and c = map_fails and ?ps1.0 = "[]" and p = "Map ''/map''"
         and ?ps2.0 = "[ObjectSensor None ''objects'' None]" and e = "RuntimeError ''no map''"]
    by (simp add: init_def map_fails_def quiet_def)
  moreover have "\<exists>s'. update (actor_fails 2 (OtherException ''ValueError''))
      (registry_of [(1, walker 1), (2, walker 2), (3, walker 3)]) =
      Raised (OtherException ''ValueError'') s'"
    using update_catches_only_registry_runtime_errors
      [where s = "registry_of [(1, walker 1), (2, walker 2), (3, walker 3)]"
         and c = "actor_fails 2 (OtherException ''ValueError'')"
         and ?ks1.0 = "[1]" and k = 2 and ?ks2.0 = "[3]" and a = "walker 2"
         and e' = "OtherException ''ValueError''"]
    by (simp add: registry_of_def init_def walker_def actor_fails_def quiet_def keys_def
        tolerated_def is_runtime_error_def)
  moreover have "\<exists>s'. update (actor_fails 2 (RuntimeError ''destroyed''))
      (registry_of [(1, walker 1), (2, walker 2), (3, walker 3)]) = Returned s'"
    using update_catches_only_registry_runtime_errors
      [where s = "registry_of [(1, walker 1), (2, walker 2), (3, walker 3)]"
         and c = "actor_fails 2 (RuntimeError ''destroyed'')"]
    by (simp add: registry_of_def init_def walker_def actor_fails_def quiet_def keys_def
        tolerated_def)
  ultimately show ?thesis
    by (auto simp: raised_def returned_def registry_of_def init_def walker_def actor_fails_def
        quiet_def keys_def update_def emit_def logwarn_def)
qed

section \<open>The tick callback\<close>

lemma nothing_propagates_cong:
  "actors s' = actors s \<Longrightarrow> pseudo_actors s' = pseudo_actors s \<Longrightarrow>
   nothing_propagates c s' = nothing_propagates c s"
  by (simp add: nothing_propagates_def)

lemma pass_events_cong:
  "actors s' = actors s \<Longrightarrow> pseudo_actors s' = pseudo_actors s \<Longrightarrow>
   pass_events c s' = pass_events c s"
  by (simp add: pass_events_def)

lemma stale_tick:
  assumes "is_shutdown s \<or> update_lock s \<or> \<not> timestamp_last_run s < u"
  shows "carla_time_tick c u s = Returned s"
  using assms by (auto simp: carla_time_tick_def)

text \<open>The tick callback when the gate is open, in every case.\<close>

lemma open_tick:
  assumes "\<not> is_shutdown s" and "\<not> update_lock s" and "timestamp_last_run s < t"
  shows "(update_clock c t = None \<and> nothing_propagates c s \<and> send_msgs c = None \<and>
            carla_time_tick c t s = Returned (ran c t s)) \<or>
         (\<not> (update_clock c t = None \<and> nothing_propagates c s \<and> send_msgs c = None) \<and>
            (\<exists>e evs. carla_time_tick c t s =
               Raised e (s\<lparr>timestamp_last_run := t, update_lock := True,
                            trace := trace s @ Update_clock t # evs\<rparr>)))"
proof -
  let ?s3 = "emit (Update_clock t) (s\<lparr>update_lock := True, timestamp_last_run := t\<rparr>)"
  have np: "nothing_propagates c ?s3 = nothing_propagates c s"
    by (rule nothing_propagates_cong) (simp_all add: emit_def)
  have pe: "pass_events c ?s3 = pass_events c s"
    by (rule pass_events_cong) (simp_all add: emit_def)
  show ?thesis
  proof (cases "update_clock c t")
    case (Some e)
    with assms have "carla_time_tick c t s =
        Raised e (s\<lparr>timestamp_last_run := t, update_lock := True,
                     trace := trace s @ Update_clock t # []\<rparr>)"
      by (simp add: carla_time_tick_def emit_def)
    then have "\<exists>e evs. carla_time_tick c t s =
        Raised e (s\<lparr>timestamp_last_run := t, update_lock := True,
                     trace := trace s @ Update_clock t # evs\<rparr>)"
      by (intro exI)
    with Some show ?thesis by simp
  next
    case None
    from update_outcome [of c ?s3] show ?thesis
    proof
      assume "nothing_propagates c ?s3 \<and> update c ?s3 = Returned (logged ?s3 (pass_events c ?s3))"
      then have ok: "nothing_propagates c s"
        and u: "update c ?s3 = Returned (logged ?s3 (pass_events c s))"
        using np pe by simp_all
      show ?thesis
      proof (cases "send_msgs c")
        case send_ok: None
        with assms None u have "carla_time_tick c t s = Returned (ran c t s)"
          by (simp add: carla_time_tick_def ran_def emit_def logged_def)
        with None ok send_ok show ?thesis by simp
      next
        case (Some e)
        with assms None u have "carla_time_tick c t s =
          Raised e (s\<lparr>timestamp_last_run := t, update_lock := True,
                       trace := trace s @ Update_clock t # (pass_events c s @ [Send_msgs])\<rparr>)"
          by (simp add: carla_time_tick_def emit_def logged_def)
        then have "\<exists>e evs. carla_time_tick c t s =
          Raised e (s\<lparr>timestamp_last_run := t, update_lock := True,
                       trace := trace s @ Update_clock t # evs\<rparr>)"
          by (intro exI)
        with Some show ?thesis by simp
      qed
    next
      assume "\<not> nothing_propagates c ?s3 \<and> (\<exists>e evs. update c ?s3 = Raised e (logged ?s3 evs))"
      then obtain e evs where bad: "\<not> nothing_propagates c s"
        and u: "update c ?s3 = Raised e (logged ?s3 evs)"
        using np by blast
      with assms None have "carla_time_tick c t s =
          Raised e (s\<lparr>timestamp_last_run := t, update_lock := True,
                       trace := trace s @ Update_clock t # evs\<rparr>)"
        by (simp add: carla_time_tick_def emit_def logged_def)
      then have "\<exists>e evs. carla_time_tick c t s =
          Raised e (s\<lparr>timestamp_last_run := t, update_lock := True,
                       trace := trace s @ Update_clock t # evs\<rparr>)"
        by (intro exI)
      with bad show ?thesis by simp
    qed
  qed
qed

lemma tick_not_blocked: "carla_time_tick c t s \<noteq> Blocked"
proof (cases "is_shutdown s \<or> update_lock s \<or> \<not> timestamp_last_run s < t")
  case True
  then show ?thesis by (simp add: stale_tick)
next
  case False
  then show ?thesis using open_tick [of s t c] by auto
qed

lemma after_tick:
  assumes "final (carla_time_tick c t s) = Some s1"
  shows "is_shutdown s1 \<or> update_lock s1 \<or> \<not> timestamp_last_run s1 < t"
proof (cases "is_shutdown s \<or> update_lock s \<or> \<not> timestamp_last_run s < t")
  case True
  with assms show ?thesis by (auto simp: stale_tick final_def)
next
  case False
  with assms show ?thesis using open_tick [of s t c]
    by (auto simp: final_def ran_def)
qed

lemma ticks_stale:
  assumes "is_shutdown s \<or> update_lock s \<or> (\<forall>u\<in>set ts. \<not> timestamp_last_run s < u)"
  shows "ticks c ts s = Some s"
  using assms by (induction ts) (auto simp: stale_tick final_def)

text \<open>
  The outcomes of the tick callback once it has acquired the update lock (shutdown flag
  clear, lock free).  It never blocks.  The release is reached on the paths that return:
  with a timestamp that does not advance the callback returns with the bridge unchanged, and
  with a timestamp that advances it returns, the lock free again, exactly when neither the
  clock update, nor the update pass, nor the message flush raises.  On every path that
  raises, the release is skipped.
\<close>

lemma tick_lock_outcomes:
  assumes "\<not> is_shutdown s" and "\<not> update_lock s"
  shows "(case carla_time_tick c t s of
            Returned s' \<Rightarrow> \<not> update_lock s'
          | Raised e s' \<Rightarrow> update_lock s'
          | Blocked \<Rightarrow> False) \<and>
         (\<not> timestamp_last_run s < t \<longrightarrow> carla_time_tick c t s = Returned s) \<and>
         (timestamp_last_run s < t \<longrightarrow>
            ((\<exists>s'. carla_time_tick c t s = Returned s') \<longleftrightarrow>
             update_clock c t = None \<and> nothing_propagates c s \<and> send_msgs c = None))"
proof (cases "timestamp_last_run s < t")
  case False
  then have "carla_time_tick c t s = Returned s" by (simp add: stale_tick)
  with False assms show ?thesis by simp
next
  case True
  from open_tick [OF assms True, of c] show ?thesis
  proof
    assume "update_clock c t = None \<and> nothing_propagates c s \<and> send_msgs c = None \<and>
            carla_time_tick c t s = Returned (ran c t s)"
    with True assms show ?thesis by (simp add: ran_def)
  next
    assume "\<not> (update_clock c t = None \<and> nothing_propagates c s \<and> send_msgs c = None) \<and>
            (\<exists>e evs. carla_time_tick c t s =
               Raised e (s\<lparr>timestamp_last_run := t, update_lock := True,
                            trace := trace s @ Update_clock t # evs\<rparr>))"
    with True show ?thesis by auto
  qed
qed

lemma tick_lock_outcomes_sample:
  "\<not> is_shutdown init \<and> \<not> update_lock init \<and>
   map_option update_lock (returned (carla_time_tick (quiet False) 1 init)) = Some False"
  using tick_lock_outcomes [of init "quiet False" 1]
  by (auto simp: init_def returned_def quiet_def nothing_propagates_def keys_def
      split: outcome.splits)

text \<open>
  C4 (release of the update lock on every outcome).  The claim has the callback release the
  update lock before it is left, whatever is raised inside the update pass or the message
  flush.  In the code the release is the last statement of the block, with no
  \<^verbatim>\<open>try\<close>/\<^verbatim>\<open>finally\<close> around it, whereas \<^verbatim>\<open>create_actor\<close> takes the same lock with
  \<^verbatim>\<open>with\<close>.  On the fresh bridge, a tick at time 1 in which the map publisher raises during
  the update pass, or in which the message flush raises, leaves the callback with the update
  lock locked.  Nothing releases it afterwards: the ticks at times 2 and 3 are skipped
  although their timestamps advance, and \<^verbatim>\<open>create_actor\<close> blocks.
\<close>

theorem tick_keeps_update_lock_on_error:
  "map_option (update_lock \<circ> snd) (raised (carla_time_tick map_fails 1 init)) = Some True \<and>
   map_option (update_lock \<circ> snd) (raised (carla_time_tick send_fails 1 init)) = Some True \<and>
   ticks send_fails [1, 2, 3] init =
     Some (init\<lparr>timestamp_last_run := 1, update_lock := True,
                trace := [Update_clock 1, Pseudo_update (Map ''/map''),
                          Pseudo_update (ObjectSensor None ''objects'' None), Send_msgs]\<rparr>) \<and>
   create_actor send_fails hero_car
     (init\<lparr>timestamp_last_run := 1, update_lock := True,
           trace := [Update_clock 1, Pseudo_update (Map ''/map''),
                     Pseudo_update (ObjectSensor None ''objects'' None), Send_msgs]\<rparr>) = Blocked"
  by (simp add: bridge_defs Let_def map_fails_def send_fails_def hero_car_def)

text \<open>
  C5 (timestamp gating).  For invocations of the tick callback with timestamps
  \<open>t\<close>, then \<open>ts\<close>, non-increasing: the first invocation leaves a bridge \<open>s1\<close>; every
  later invocation returns with \<open>s1\<close> unchanged, trace included, hence with no clock
  update, no \<^verbatim>\<open>update()\<close> call and no flush; the whole sequence ends in \<open>s1\<close>.  When the
  first invocation passes the gate (no shutdown, lock free, timestamp advancing), it sets
  the last-processed timestamp to \<open>t\<close> and updates the clock; when moreover nothing raises,
  it runs the whole pass and flushes the messages.
\<close>

theorem stale_ticks_are_no_ops:
  assumes "sorted_wrt (\<ge>) (t # ts)"
  shows "\<exists>s1. final (carla_time_tick c t s) = Some s1 \<and>
           (\<forall>u\<in>set ts. carla_time_tick c u s1 = Returned s1) \<and>
           ticks c (t # ts) s = Some s1 \<and>
           (\<not> is_shutdown s \<and> \<not> update_lock s \<and> timestamp_last_run s < t \<longrightarrow>
              timestamp_last_run s1 = t \<and> prefix (trace s @ [Update_clock t]) (trace s1)) \<and>
           (\<not> is_shutdown s \<and> \<not> update_lock s \<and> timestamp_last_run s < t \<and>
            update_clock c t = None \<and> nothing_propagates c s \<and> send_msgs c = None \<longrightarrow>
              s1 = s\<lparr>timestamp_last_run := t,
                      trace := trace s @ Update_clock t # pass_events c s @ [Send_msgs]\<rparr>)"
proof -
  from tick_not_blocked [of c t s] obtain s1 where s1: "final (carla_time_tick c t s) = Some s1"
    by (cases "carla_time_tick c t s") (simp_all add: final_def)
  from assms have le: "\<forall>u\<in>set ts. u \<le> t" by simp
  from after_tick [OF s1] le
  have stale: "is_shutdown s1 \<or> update_lock s1 \<or> (\<forall>u\<in>set ts. \<not> timestamp_last_run s1 < u)"
    by fastforce
  then have each: "\<forall>u\<in>set ts. carla_time_tick c u s1 = Returned s1"
    by (auto simp: stale_tick)
  from stale have all: "ticks c (t # ts) s = Some s1"
    using s1 ticks_stale [of s1 ts c] by simp
  have first: "\<not> is_shutdown s \<and> \<not> update_lock s \<and> timestamp_last_run s < t \<longrightarrow>
      timestamp_last_run s1 = t \<and> prefix (trace s @ [Update_clock t]) (trace s1)"
  proof
    assume "\<not> is_shutdown s \<and> \<not> update_lock s \<and> timestamp_last_run s < t"
    then show "timestamp_last_run s1 = t \<and> prefix (trace s @ [Update_clock t]) (trace s1)"
      using open_tick [of s t c] s1 by (auto simp: final_def ran_def prefix_def)
  qed
  have full: "\<not> is_shutdown s \<and> \<not> update_lock s \<and> timestamp_last_run s < t \<and>
      update_clock c t = None \<and> nothing_propagates c s \<and> send_msgs c = None \<longrightarrow>
      s1 = s\<lparr>timestamp_last_run := t,
              trace := trace s @ Update_clock t # pass_events c s @ [Send_msgs]\<rparr>"
  proof
    assume "\<not> is_shutdown s \<and> \<not> update_lock s \<and> timestamp_last_run s < t \<and>
      update_clock c t = None \<and> nothing_propagates c s \<and> send_msgs c = None"
    then show "s1 = s\<lparr>timestamp_last_run := t,
              trace := trace s @ Update_clock t # pass_events c s @ [Send_msgs]\<rparr>"
      using open_tick [of s t c] s1 by (auto simp: final_def ran_def)
  qed
  from s1 each all first full show ?thesis by blast
qed

theorem stale_ticks_are_no_ops_witness:
  "sorted_wrt (\<ge>) [2, 2, 1 :: real] \<and>
   ticks (quiet False) [2, 2, 1] init =
     Some (init\<lparr>timestamp_last_run := 2,
                trace := [Update_clock 2, Pseudo_update (Map ''/map''),
                          Pseudo_update (ObjectSensor None ''objects'' None), Send_msgs]\<rparr>)"
  using stale_ticks_are_no_ops [of 2 "[2, 1]" "quiet False" init]
  by (auto simp: init_def quiet_def nothing_propagates_def pass_events_def keys_def)

section \<open>Creation of actors\<close>

lemma created_simps [simp]:
  "update_lock (created c d s ca) = update_lock s"
  "is_shutdown (created c d s ca) = is_shutdown s"
  "timestamp_last_run (created c d s ca) = timestamp_last_run s"
  "update_child_actors_lock (created c d s ca) = update_child_actors_lock s"
  by (simp_all add: created_def)

lemma foldl_created_simps [simp]:
  "update_lock (foldl (created c d) s cas) = update_lock s"
  "is_shutdown (foldl (created c d) s cas) = is_shutdown s"
  "timestamp_last_run (foldl (created c d) s cas) = timestamp_last_run s"
  "update_child_actors_lock (foldl (created c d) s cas) = update_child_actors_lock s"
  by (induction cas arbitrary: s) simp_all

lemma class_of_built [simp]: "cls (built c d ca) = class_of c ca"
  by (cases ca) simp

lemma create_actor_unfold:
  "create_actor c (CarlaActor i t attrs par) s =
     (case par of
        None \<Rightarrow> create_here c (CarlaActor i t attrs par) None s
      | Some p \<Rightarrow>
          (case map_of (actors s) (carla_id p) of
             Some a \<Rightarrow> create_here c (CarlaActor i t attrs par) (Some a) s
           | None \<Rightarrow>
               (case create_actor c p s of
                  Returned (a, s1) \<Rightarrow> create_here c (CarlaActor i t attrs par) (Some a) s1
                | Raised e s1 \<Rightarrow> Raised e s1
                | Blocked \<Rightarrow> Blocked)))"
  by (simp add: create_here_def split: option.splits outcome.splits prod.splits)

lemma create_step:
  assumes "\<not> update_lock s"
  shows "create_here c ca par s =
         Returned (ActorObj (class_of c ca) ca par,
           s\<lparr>actors := AList.update (carla_id ca) (ActorObj (class_of c ca) ca par) (actors s),
             pseudo_actors := pseudo_actors s @
               (if class_of c ca = EgoVehicle
                then [ObjectSensor (Some (ActorObj (class_of c ca) ca par)) ''objects''
                        (Some (carla_id ca))] else []),
             trace := trace s @
               [Logwarn (Created_Actor (class_of c ca) (carla_id ca) (type_id ca)),
                Registry_insert (carla_id ca) True]\<rparr>)"
  using assms
  by (simp add: create_here_def instantiate_def register_def class_of_def sensor_class_eq
      with_update_lock_def logwarn_def emit_def Let_def)

lemma create_blocked:
  assumes "update_lock s"
  shows "create_here c ca par s = Blocked"
  using assms
  by (simp add: create_here_def instantiate_def register_def sensor_class_eq
      with_update_lock_def logwarn_def emit_def Let_def)

lemma create_step_built:
  assumes "\<not> update_lock s1" and "built c d ca = ActorObj (class_of c ca) ca par"
  shows "create_here c ca par s1 = Returned (built c d ca, created c d s1 ca)"
  using create_step [OF assms(1), of c ca par] assms(2) by (simp add: created_def)

lemma create_actor_eq:
  assumes "\<not> update_lock s"
  shows "create_actor c ca s =
     Returned (built c (actors s) ca,
               foldl (created c (actors s)) s (pending (actors s) ca @ [ca]))"
  using assms
proof (induction c ca s rule: create_actor.induct)
  case (1 c i t attrs par s)
  let ?ca = "CarlaActor i t attrs par"
  let ?d = "actors s"
  show ?case
  proof (cases par)
    case None
    have b: "built c ?d ?ca = ActorObj (class_of c ?ca) ?ca None"
      by (simp add: None)
    have "create_actor c ?ca s = create_here c ?ca None s"
      by (simp add: create_actor_unfold None del: create_actor.simps)
    also have "\<dots> = Returned (built c ?d ?ca, created c ?d s ?ca)"
      using "1.prems" b by (rule create_step_built)
    finally show ?thesis by (simp add: None)
  next
    case (Some p)
    show ?thesis
    proof (cases "map_of ?d (carla_id p)")
      case found: (Some a)
      have b: "built c ?d ?ca = ActorObj (class_of c ?ca) ?ca (Some a)"
        by (simp add: Some found)
      have "create_actor c ?ca s = create_here c ?ca (Some a) s"
        by (simp add: create_actor_unfold Some found del: create_actor.simps)
      also have "\<dots> = Returned (built c ?d ?ca, created c ?d s ?ca)"
        using "1.prems" b by (rule create_step_built)
      finally show ?thesis by (simp add: Some found)
    next
      case None
      let ?s1 = "foldl (created c ?d) s (pending ?d p @ [p])"
      from "1.IH" [OF Some None "1.prems"]
      have ih: "create_actor c p s = Returned (built c ?d p, ?s1)" .
      have free: "\<not> update_lock ?s1" using "1.prems" by simp
      have b: "built c ?d ?ca = ActorObj (class_of c ?ca) ?ca (Some (built c ?d p))"
        by (simp add: Some None)
      have pd: "pending ?d ?ca = pending ?d p @ [p]"
        by (simp add: Some None)
      have "create_actor c ?ca s = create_here c ?ca (Some (built c ?d p)) ?s1"
        by (simp add: create_actor_unfold Some None ih del: create_actor.simps foldl_append)
      also have "\<dots> = Returned (built c ?d ?ca, created c ?d ?s1 ?ca)"
        using free b by (rule create_step_built)
      also have "created c ?d ?s1 ?ca = foldl (created c ?d) s (pending ?d ?ca @ [?ca])"
        by (simp only: pd foldl_append foldl.simps)
      finally show ?thesis .
    qed
  qed
qed

lemma create_actor_blocked:
  "update_lock s \<Longrightarrow> create_actor c ca s = Blocked"
proof (induction c ca s rule: create_actor.induct)
  case (1 c i t attrs par s)
  show ?case
  proof (cases par)
    case None
    then show ?thesis using "1.prems"
      by (simp add: create_actor_unfold create_blocked del: create_actor.simps)
  next
    case (Some p)
    then show ?thesis using "1.IH" "1.prems"
      by (cases "map_of (actors s) (carla_id p)")
         (simp_all add: create_actor_unfold create_blocked del: create_actor.simps)
  qed
qed

section \<open>Reconciliation\<close>

lemma added_lock [simp]: "update_lock (added c E s) = update_lock s"
  by (induction E arbitrary: s) simp_all

lemma add_new_eq:
  "\<not> update_lock s \<Longrightarrow> add_new c E s = Returned (added c E s)"
proof (induction E arbitrary: s)
  case Nil
  show ?case by simp
next
  case (Cons a E)
  show ?case
  proof (cases "carla_id a \<in> set (keys (actors s))")
    case True
    then show ?thesis using Cons by simp
  next
    case False
    let ?s1 = "foldl (created c (actors s)) s (pending (actors s) a @ [a])"
    have "\<not> update_lock ?s1" using Cons.prems by simp
    from Cons.IH [OF this] False Cons.prems show ?thesis
      by (simp add: create_actor_eq del: foldl_append)
  qed
qed

lemma add_new_blocked:
  "update_lock s \<Longrightarrow> add_new c E s = Blocked \<or> add_new c E s = Returned s"
  by (induction E) (auto simp: create_actor_blocked)

lemma logged_before_append:
  "logged_before prev (xs @ ys) =
     (logged_before prev xs \<and> logged_before (if xs = [] then prev else Some (last xs)) ys)"
  by (induction xs arbitrary: prev) auto

lemma logged_before_no_delete:
  "\<forall>e\<in>set evs. \<not> is_delete e \<Longrightarrow> logged_before prev evs"
  by (induction evs arbitrary: prev) (auto split: event.splits)

lemma logged_before_nth:
  assumes "logged_before prev evs" and "i < length evs" and "evs ! i = Registry_delete k b"
  shows "(if i = 0 then prev else Some (evs ! (i - 1))) = Some (Logwarn (Remove_Actor k))"
  using assms
proof (induction evs arbitrary: prev i)
  case Nil
  then show ?case by simp
next
  case (Cons e es)
  show ?case
  proof (cases i)
    case 0
    with Cons.prems show ?thesis by simp
  next
    case (Suc j)
    with Cons.prems have "logged_before (Some e) es" "j < length es" "es ! j = Registry_delete k b"
      by simp_all
    from Cons.IH [OF this] Suc show ?thesis
      by (cases j) simp_all
  qed
qed

lemma trace_created:
  "trace (foldl (created c d) s cas) = trace s @
     concat (map (\<lambda>ca. [Logwarn (Created_Actor (class_of c ca) (carla_id ca) (type_id ca)),
                         Registry_insert (carla_id ca) True]) cas)"
  by (induction cas arbitrary: s) (simp_all add: created_def)

lemma trace_added:
  "\<exists>evs. trace (added c E s) = trace s @ evs \<and> (\<forall>e\<in>set evs. \<not> is_delete e)"
proof (induction E arbitrary: s)
  case Nil
  show ?case by simp
next
  case (Cons a E)
  let ?s1 = "if carla_id a \<in> set (keys (actors s)) then s
        else foldl (created c (actors s)) s (pending (actors s) a @ [a])"
  have "\<exists>evs. trace ?s1 = trace s @ evs \<and> (\<forall>e\<in>set evs. \<not> is_delete e)"
    by (auto simp: trace_created simp del: foldl_append)
  then obtain evs1 where 1: "trace ?s1 = trace s @ evs1" "\<forall>e\<in>set evs1. \<not> is_delete e"
    by blast
  from Cons.IH [of ?s1] obtain evs2 where
    2: "trace (added c E ?s1) = trace ?s1 @ evs2" "\<forall>e\<in>set evs2. \<not> is_delete e"
    by blast
  from 1 2 have "trace (added c (a # E) s) = trace s @ (evs1 @ evs2) \<and>
      (\<forall>e\<in>set (evs1 @ evs2). \<not> is_delete e)"
    by auto
  then show ?case by blast
qed

text \<open>Every insertion that \<^verbatim>\<open>create_actor\<close> makes is made with the update lock locked.\<close>

lemma insertions_hold_update_lock:
  assumes "create_actor c ca s = Returned (a, s')"
  shows "\<exists>evs. trace s' = trace s @ evs \<and> (\<forall>k b. Registry_insert k b \<in> set evs \<longrightarrow> b)"
proof (cases "update_lock s")
  case True
  with assms show ?thesis by (simp add: create_actor_blocked)
next
  case False
  let ?evs = "concat (map (\<lambda>ca. [Logwarn (Created_Actor (class_of c ca) (carla_id ca) (type_id ca)),
                         Registry_insert (carla_id ca) True]) (pending (actors s) ca @ [ca]))"
  from assms create_actor_eq [OF False, of c ca]
  have "s' = foldl (created c (actors s)) s (pending (actors s) ca @ [ca])" by simp
  then have "trace s' = trace s @ ?evs" by (simp only: trace_created)
  moreover have "\<forall>k b. Registry_insert k b \<in> set ?evs \<longrightarrow> b" by auto
  ultimately show ?thesis by blast
qed

lemma keys_created_one:
  "set (keys (actors (created c d s ca))) = insert (carla_id ca) (set (keys (actors s)))"
  by (simp add: created_def keys_def AList.dom_update)

lemma keys_created:
  "set (keys (actors (foldl (created c d) s cas))) = set (keys (actors s)) \<union> carla_id ` set cas"
  by (induction cas arbitrary: s) (simp_all add: keys_created_one)

lemma keys_added_mono: "set (keys (actors s)) \<subseteq> set (keys (actors (added c E s)))"
proof (induction E arbitrary: s)
  case Nil
  show ?case by simp
next
  case (Cons a E)
  let ?s1 = "if carla_id a \<in> set (keys (actors s)) then s
        else foldl (created c (actors s)) s (pending (actors s) a @ [a])"
  have "set (keys (actors s)) \<subseteq> set (keys (actors ?s1))"
    by (auto simp: keys_created simp del: foldl_append)
  with Cons.IH [of ?s1] show ?case by auto
qed

lemma keys_added_all: "carla_id ` set E \<subseteq> set (keys (actors (added c E s)))"
proof (induction E arbitrary: s)
  case Nil
  show ?case by simp
next
  case (Cons a E)
  let ?s1 = "if carla_id a \<in> set (keys (actors s)) then s
        else foldl (created c (actors s)) s (pending (actors s) a @ [a])"
  have "carla_id a \<in> set (keys (actors ?s1))"
    by (auto simp: keys_created simp del: foldl_append)
  with keys_added_mono [of ?s1 c E] Cons.IH [of ?s1] show ?case by auto
qed

text \<open>The removal loop, in every case.\<close>

lemma remove_old_trace:
  assumes "final (remove_old c ids ks s) = Some s'"
  shows "\<exists>evs. trace s' = trace s @ evs \<and> logged_before None evs \<and>
           (\<forall>e\<in>set evs. (\<exists>k. e = Logwarn (Remove_Actor k)) \<or> is_delete e) \<and>
           (\<forall>k\<in>set (keys (actors s)). k \<notin> set (keys (actors s')) \<longrightarrow>
              Registry_delete k (update_lock s) \<in> set evs)"
  using assms
proof (induction ks arbitrary: s)
  case Nil
  then have "s' = s" by (simp add: final_def)
  then show ?case by simp
next
  case (Cons k ks)
  show ?case
  proof (cases "k \<notin> set ids \<and> k \<noteq> 0")
    case False
    then have "remove_old c ids (k # ks) s = remove_old c ids ks s"
      by (auto simp: truthy_def)
    with Cons show ?thesis by simp
  next
    case True
    let ?s1 = "logwarn (Remove_Actor k) s"
    let ?s2 = "emit (Registry_delete k (update_lock ?s1))
                 (?s1\<lparr>actors := AList.delete k (actors ?s1)\<rparr>)"
    show ?thesis
    proof (cases "k \<in> set (keys (actors s))")
      case absent: False
      with True Cons.prems have "s' = ?s1"
        by (simp add: truthy_def final_def logwarn_def emit_def)
      then have "trace s' = trace s @ [Logwarn (Remove_Actor k)] \<and> actors s' = actors s"
        by (simp add: logwarn_def emit_def)
      then show ?thesis by auto
    next
      case present: True
      have t2: "trace ?s2 = trace s @ [Logwarn (Remove_Actor k), Registry_delete k (update_lock s)]"
        by (simp add: logwarn_def emit_def)
      have k2: "set (keys (actors ?s2)) = set (keys (actors s)) - {k}"
        by (auto simp: logwarn_def emit_def keys_def AList.delete_keys)
      show ?thesis
      proof (cases "keys_view c")
        case view: True
        with True present Cons.prems have "s' = ?s2"
          by (simp add: truthy_def final_def logwarn_def emit_def)
        with t2 k2 show ?thesis by auto
      next
        case False
        with True present Cons.prems have "final (remove_old c ids ks ?s2) = Some s'"
          by (simp add: truthy_def logwarn_def emit_def)
        from Cons.IH [OF this] obtain evs where
          evs: "trace s' = trace ?s2 @ evs" "logged_before None evs"
          "\<forall>e\<in>set evs. (\<exists>k. e = Logwarn (Remove_Actor k)) \<or> is_delete e"
          "\<forall>j\<in>set (keys (actors ?s2)). j \<notin> set (keys (actors s')) \<longrightarrow>
              Registry_delete j (update_lock ?s2) \<in> set evs"
          by blast
        let ?all = "[Logwarn (Remove_Actor k), Registry_delete k (update_lock s)] @ evs"
        have lb: "logged_before None ?all"
        proof (cases evs)
          case Nil
          then show ?thesis by simp
        next
          case (Cons e es)
          with evs(2,3) show ?thesis by (cases e) auto
        qed
        have tr: "trace s' = trace s @ ?all" using evs(1) t2 by simp
        have shape: "\<forall>e\<in>set ?all. (\<exists>k. e = Logwarn (Remove_Actor k)) \<or> is_delete e"
          using evs(3) by simp
        have "update_lock ?s2 = update_lock s"
          by (simp add: logwarn_def emit_def)
        with evs(4) k2
        have gone: "\<forall>j\<in>set (keys (actors s)). j \<notin> set (keys (actors s')) \<longrightarrow>
              Registry_delete j (update_lock s) \<in> set ?all"
          by auto
        from tr lb shape gone show ?thesis by blast
      qed
    qed
  qed
qed

lemma logged_before_prev: "logged_before None evs \<Longrightarrow> logged_before prev evs"
  by (cases evs) (auto split: event.splits)

lemma add_new_cases:
  "add_new c E s = Blocked \<or>
   (\<exists>s1 evs. add_new c E s = Returned s1 \<and> trace s1 = trace s @ evs \<and>
      (\<forall>e\<in>set evs. \<not> is_delete e) \<and> update_lock s1 = update_lock s \<and>
      set (keys (actors s)) \<subseteq> set (keys (actors s1)))"
proof (cases "update_lock s")
  case True
  from add_new_blocked [OF this, of c E] show ?thesis
  proof
    assume "add_new c E s = Returned s"
    then have "add_new c E s = Returned s \<and> trace s = trace s @ [] \<and>
      (\<forall>e\<in>set []. \<not> is_delete e) \<and> update_lock s = update_lock s \<and>
      set (keys (actors s)) \<subseteq> set (keys (actors s))" by simp
    then show ?thesis by blast
  qed simp
next
  case False
  from trace_added [of c E s] obtain evs where
    "trace (added c E s) = trace s @ evs" "\<forall>e\<in>set evs. \<not> is_delete e" by blast
  with add_new_eq [OF False, of c E] keys_added_mono [of s c E]
  have "add_new c E s = Returned (added c E s) \<and> trace (added c E s) = trace s @ evs \<and>
      (\<forall>e\<in>set evs. \<not> is_delete e) \<and> update_lock (added c E s) = update_lock s \<and>
      set (keys (actors s)) \<subseteq> set (keys (actors (added c E s)))"
    by simp
  then show ?thesis by blast
qed

text \<open>
  C9 (removal logging).  Whatever a reconciliation pass leaves behind, whether it returned
  or raised: in the events of the pass, every deletion of a registry entry directly follows
  the warning \<^verbatim>\<open>Remove Actor\<close> that names the same id, and every id that was registered
  before the pass and is no longer registered after it has such a deletion.
\<close>

theorem removals_are_logged_first:
  assumes "final (update_actors c E s) = Some s'"
  shows "\<exists>new. trace s' = trace s @ new \<and>
     (\<forall>i k b. i < length new \<and> new ! i = Registry_delete k b \<longrightarrow>
        0 < i \<and> new ! (i - 1) = Logwarn (Remove_Actor k)) \<and>
     (\<forall>k\<in>set (keys (actors s)). k \<notin> set (keys (actors s')) \<longrightarrow>
        (\<exists>b. Registry_delete k b \<in> set new))"
proof -
  from add_new_cases [of c E s] assms obtain s1 evs1 where
    add: "add_new c E s = Returned s1" "trace s1 = trace s @ evs1"
    "\<forall>e\<in>set evs1. \<not> is_delete e" "set (keys (actors s)) \<subseteq> set (keys (actors s1))"
    by (auto simp: update_actors_def final_def)
  with assms have "final (remove_old c (map carla_id E) (keys (actors s1)) s1) = Some s'"
    by (simp add: update_actors_def)
  from remove_old_trace [OF this] obtain evs2 where
    rem: "trace s' = trace s1 @ evs2" "logged_before None evs2"
    "\<forall>k\<in>set (keys (actors s1)). k \<notin> set (keys (actors s')) \<longrightarrow>
       Registry_delete k (update_lock s1) \<in> set evs2"
    by blast
  let ?new = "evs1 @ evs2"
  have tr: "trace s' = trace s @ ?new" using add(2) rem(1) by simp
  have lb: "logged_before None ?new"
    using add(3) rem(2)
    by (simp add: logged_before_append logged_before_no_delete logged_before_prev)
  have ord: "\<forall>i k b. i < length ?new \<and> ?new ! i = Registry_delete k b \<longrightarrow>
        0 < i \<and> ?new ! (i - 1) = Logwarn (Remove_Actor k)"
  proof (intro allI impI)
    fix i k b
    assume "i < length ?new \<and> ?new ! i = Registry_delete k b"
    with logged_before_nth [OF lb, of i k b]
    show "0 < i \<and> ?new ! (i - 1) = Logwarn (Remove_Actor k)"
      by (cases "i = 0") simp_all
  qed
  have gone: "\<forall>k\<in>set (keys (actors s)). k \<notin> set (keys (actors s')) \<longrightarrow>
        (\<exists>b. Registry_delete k b \<in> set ?new)"
    using add(4) rem(3) by auto
  from tr ord gone show ?thesis by blast
qed

theorem removals_are_logged_first_witness:
  "final (update_actors (quiet False) [pedestrian 1, pedestrian 3]
            (registry_of [(1, walker 1), (2, walker 2), (3, walker 3)])) =
     Some ((registry_of [(1, walker 1), (3, walker 3)])
              \<lparr>trace := [Logwarn (Remove_Actor 2), Registry_delete 2 False]\<rparr>) \<and>
   (\<exists>b. Registry_delete 2 b \<in> set [Logwarn (Remove_Actor 2), Registry_delete 2 False])"
proof -
  have pass: "final (update_actors (quiet False) [pedestrian 1, pedestrian 3]
            (registry_of [(1, walker 1), (2, walker 2), (3, walker 3)])) =
     Some ((registry_of [(1, walker 1), (3, walker 3)])
              \<lparr>trace := [Logwarn (Remove_Actor 2), Registry_delete 2 False]\<rparr>)"
    by (simp add: bridge_defs pedestrian_def AList.delete_eq)
  from removals_are_logged_first [OF pass]
  have "\<exists>b. Registry_delete 2 b \<in> set [Logwarn (Remove_Actor 2), Registry_delete 2 False]"
    by (simp add: registry_of_def init_def keys_def)
  with pass show ?thesis by simp
qed

section \<open>The ego vehicle\<close>

lemma vehicle_not_traffic: "startswith t ''vehicle'' \<Longrightarrow> \<not> startswith t ''traffic''"
  by (auto simp: startswith_def prefix_def)

lemma class_of_vehicle:
  "startswith (type_id ca) ''vehicle'' \<Longrightarrow>
   class_of c ca = (if is_ego c ca then EgoVehicle else Vehicle)"
  by (simp add: class_of_def vehicle_not_traffic)

lemma class_of_ego_iff:
  "class_of c ca = EgoVehicle \<longleftrightarrow> startswith (type_id ca) ''vehicle'' \<and> is_ego c ca"
  by (auto simp: class_of_def Let_def vehicle_not_traffic)

lemma pseudo_actors_created:
  "pseudo_actors (foldl (created c d) s cas) = pseudo_actors s @ object_sensors c d cas"
  by (induction cas arbitrary: s) (simp_all add: created_def object_sensors_def)

lemma object_sensors_append:
  "object_sensors c d (xs @ ys) = object_sensors c d xs @ object_sensors c d ys"
  by (simp add: object_sensors_def)

lemma object_sensors_none:
  "\<forall>ca\<in>set cas. class_of c ca \<noteq> EgoVehicle \<Longrightarrow> object_sensors c d cas = []"
  by (induction cas) (simp_all add: object_sensors_def)

text \<open>
  C8 (side effect of the ego vehicle), as amended.  For a handle whose type tag starts with
  \<^verbatim>\<open>vehicle\<close>, created with the update lock free, where none of the unregistered ancestors
  that the call creates first is itself an ego vehicle (so for every handle without a
  parent or with a registered parent): with a role name among the configured ones the call
  returns an \<open>EgoVehicle\<close> and the pseudo-actor list grows by exactly one element, the
  object sensor whose parent is the returned object and whose filtered id is the handle's
  id; otherwise it returns a \<open>Vehicle\<close> and leaves the list as it was.
\<close>

theorem ego_vehicle_gets_object_sensor:
  assumes "\<not> update_lock s"
    and "startswith (type_id ca) ''vehicle''"
    and "\<forall>p\<in>set (pending (actors s) ca). \<not> (startswith (type_id p) ''vehicle'' \<and> is_ego c p)"
  shows "\<exists>a s'. create_actor c ca s = Returned (a, s') \<and>
           (is_ego c ca \<longrightarrow> cls a = EgoVehicle \<and>
              pseudo_actors s' = pseudo_actors s @
                [ObjectSensor (Some a) ''objects'' (Some (carla_id ca))]) \<and>
           (\<not> is_ego c ca \<longrightarrow> cls a = Vehicle \<and> pseudo_actors s' = pseudo_actors s)"
proof -
  let ?d = "actors s"
  let ?s' = "foldl (created c ?d) s (pending ?d ca @ [ca])"
  from assms(3) have "object_sensors c ?d (pending ?d ca) = []"
    by (intro object_sensors_none) (simp add: class_of_ego_iff)
  then have ps: "pseudo_actors ?s' = pseudo_actors s @ object_sensors c ?d [ca]"
    by (simp only: pseudo_actors_created object_sensors_append append_Nil)
  have "create_actor c ca s = Returned (built c ?d ca, ?s')"
    using assms(1) by (rule create_actor_eq)
  moreover have "is_ego c ca \<longrightarrow> cls (built c ?d ca) = EgoVehicle \<and>
      pseudo_actors ?s' = pseudo_actors s @
        [ObjectSensor (Some (built c ?d ca)) ''objects'' (Some (carla_id ca))]"
    using ps assms(2) by (simp add: class_of_vehicle object_sensors_def)
  moreover have "\<not> is_ego c ca \<longrightarrow> cls (built c ?d ca) = Vehicle \<and>
      pseudo_actors ?s' = pseudo_actors s"
    using ps assms(2) by (simp add: class_of_vehicle object_sensors_def)
  ultimately show ?thesis by blast
qed

theorem ego_vehicle_gets_object_sensor_witness:
  "\<not> update_lock init \<and> startswith (type_id hero_car) ''vehicle'' \<and>
   pending (actors init) hero_car = [] \<and> is_ego (quiet False) hero_car \<and>
   created_class (create_actor (quiet False) hero_car init) = Some EgoVehicle \<and>
   map_option (pseudo_actors \<circ> snd) (returned (create_actor (quiet False) hero_car init)) =
     Some [Map ''/map'', ObjectSensor None ''objects'' None,
           ObjectSensor (Some (ActorObj EgoVehicle hero_car None)) ''objects'' (Some 1)]"
proof -
  have free: "\<not> update_lock init" by (simp add: init_def)
  have tag: "startswith (type_id hero_car) ''vehicle''"
    by (simp add: hero_car_def startswith_def)
  have none: "pending (actors init) hero_car = []" by (simp add: hero_car_def)
  then have anc: "\<forall>p\<in>set (pending (actors init) hero_car).
      \<not> (startswith (type_id p) ''vehicle'' \<and> is_ego (quiet False) p)" by simp
  have ego: "is_ego (quiet False) hero_car" by (simp add: is_ego_def hero_car_def quiet_def)
  from ego_vehicle_gets_object_sensor [OF free tag anc] ego obtain a s' where
    r: "create_actor (quiet False) hero_car init = Returned (a, s')" "cls a = EgoVehicle"
    "pseudo_actors s' = pseudo_actors init @ [ObjectSensor (Some a) ''objects'' (Some (carla_id hero_car))]"
    by blast
  have "a = ActorObj EgoVehicle hero_car None"
    using r(1) create_actor_eq [OF free, of "quiet False" hero_car]
    by (simp add: hero_car_def class_of_def startswith_def is_ego_def quiet_def)
  with r free tag none ego show ?thesis
    by (simp add: created_class_def returned_def init_def hero_car_def)
qed

text \<open>
  C8 as stated covers every handle.  A vehicle with role name \<^verbatim>\<open>npc\<close> attached to
  an ego vehicle that is not yet registered is created as a generic \<open>Vehicle\<close>, and the
  call appends an object sensor all the same: the one of the parent, created on the way.
\<close>

theorem vehicle_on_new_ego_parent_appends_object_sensor:
  "created_class (create_actor (quiet False) towed_car init) = Some Vehicle \<and>
   map_option (pseudo_actors \<circ> snd) (returned (create_actor (quiet False) towed_car init)) =
     Some [Map ''/map'', ObjectSensor None ''objects'' None,
           ObjectSensor (Some (ActorObj EgoVehicle hero_car None)) ''objects'' (Some 1)]"
  by (simp add: bridge_defs Let_def towed_car_def hero_car_def)

section \<open>Parents before children\<close>

lemma inserts_append: "inserts (xs @ ys) = inserts xs @ inserts ys"
  by (induction xs rule: inserts.induct) simp_all

lemma inserts_created:
  "inserts (concat (map (\<lambda>ca. [Logwarn (Created_Actor (class_of c ca) (carla_id ca) (type_id ca)),
                         Registry_insert (carla_id ca) True]) cas)) = map carla_id cas"
  by (induction cas) simp_all

lemma inserts_removal:
  "\<forall>e\<in>set evs. (\<exists>k. e = Logwarn (Remove_Actor k)) \<or> is_delete e \<Longrightarrow> inserts evs = []"
  by (induction evs rule: inserts.induct) auto

lemma preceded_append:
  "preceded a b (xs @ ys) \<longleftrightarrow> preceded a b xs \<and> (a \<in> set xs \<or> preceded a b ys)"
  by (induction xs) auto

lemma preceded_split:
  assumes "preceded a b xs" and "b \<in> set xs"
  shows "\<exists>xs1 xs2. xs = xs1 @ b # xs2 \<and> b \<notin> set xs1 \<and> a \<in> set xs1"
  using assms
proof (induction xs)
  case Nil
  then show ?case by simp
next
  case (Cons x xs)
  from Cons.prems have xb: "x \<noteq> b" and bxs: "b \<in> set xs" by auto
  show ?case
  proof (cases "x = a")
    case True
    from split_list_first [OF bxs] obtain ys zs where "xs = ys @ b # zs" "b \<notin> set ys"
      by blast
    with True xb have "x # xs = (x # ys) @ b # zs \<and> b \<notin> set (x # ys) \<and> a \<in> set (x # ys)"
      by simp
    then show ?thesis by blast
  next
    case False
    with Cons.prems have "preceded a b xs" by simp
    from Cons.IH [OF this bxs] obtain ys zs where
      "xs = ys @ b # zs" "b \<notin> set ys" "a \<in> set ys" by blast
    with xb have "x # xs = (x # ys) @ b # zs \<and> b \<notin> set (x # ys) \<and> a \<in> set (x # ys)"
      by simp
    then show ?thesis by blast
  qed
qed

lemma pending_ancestors: "set (pending d ca) \<subseteq> set (ancestors ca)"
  by (induction d ca rule: pending.induct) (auto split: option.splits)

lemma map_of_keys: "map_of d k = None \<longleftrightarrow> k \<notin> set (keys d)"
  by (simp add: keys_def map_of_eq_None_iff)

text \<open>Within one call of \<open>create_actor\<close>.\<close>

lemma preceded_chain:
  assumes "\<forall>h'\<in>set (pending d ca @ [ca]).
             carla_id h' = kc \<longrightarrow> map_option carla_id (parent h') = Some kp"
    and "kp \<notin> set (keys d)"
  shows "preceded kp kc (map carla_id (pending d ca @ [ca]))"
  using assms
proof (induction d ca rule: pending.induct)
  case (1 d i t attrs par)
  let ?ca = "CarlaActor i t attrs par"
  from "1.prems"(1) have self: "i = kc \<longrightarrow> map_option carla_id par = Some kp"
    by simp
  show ?case
  proof (cases par)
    case None
    with self show ?thesis by simp
  next
    case (Some p)
    show ?thesis
    proof (cases "map_of d (carla_id p)")
      case registered: (Some a)
      then have "carla_id p \<in> set (keys d)"
        using map_of_keys [of d "carla_id p"] by simp
      with self Some "1.prems"(2) have "i \<noteq> kc" by auto
      with Some registered show ?thesis by simp
    next
      case None
      have sub: "\<forall>h'\<in>set (pending d p @ [p]).
             carla_id h' = kc \<longrightarrow> map_option carla_id (parent h') = Some kp"
        using "1.prems"(1) Some None by simp
      from "1.IH" [OF Some None sub "1.prems"(2)]
      have ih: "preceded kp kc (map carla_id (pending d p @ [p]))" .
      have here: "kp \<in> set (map carla_id (pending d p @ [p])) \<or> preceded kp kc [i]"
        using self Some by (cases "i = kc") auto
      have "map carla_id (pending d ?ca @ [?ca]) = map carla_id (pending d p @ [p]) @ [i]"
        using Some None by simp
      with ih here show ?thesis
        by (simp only: preceded_append)
    qed
  qed
qed

text \<open>Along the first loop of \<open>update_actors\<close>.\<close>

lemma added_order:
  "\<exists>evs. trace (added c E s) = trace s @ evs \<and>
      set (keys (actors (added c E s))) = set (keys (actors s)) \<union> set (inserts evs) \<and>
      ((\<forall>h'\<in>set (handles E). carla_id h' = kc \<longrightarrow> map_option carla_id (parent h') = Some kp) \<and>
       kp \<notin> set (keys (actors s)) \<longrightarrow> preceded kp kc (inserts evs))"
proof (induction E arbitrary: s)
  case Nil
  have "trace (added c [] s) = trace s @ [] \<and>
      set (keys (actors (added c [] s))) = set (keys (actors s)) \<union> set (inserts []) \<and>
      preceded kp kc (inserts [])" by simp
  then show ?case by blast
next
  case (Cons a E)
  let ?d = "actors s"
  let ?chain = "if carla_id a \<in> set (keys ?d) then [] else pending ?d a @ [a]"
  let ?s1 = "foldl (created c ?d) s ?chain"
  let ?evs1 = "concat (map (\<lambda>ca. [Logwarn (Created_Actor (class_of c ca) (carla_id ca) (type_id ca)),
                         Registry_insert (carla_id ca) True]) ?chain)"
  have step: "added c (a # E) s = added c E ?s1" by simp
  have t1: "trace ?s1 = trace s @ ?evs1" by (rule trace_created)
  have i1: "inserts ?evs1 = map carla_id ?chain" by (rule inserts_created)
  have k1: "set (keys (actors ?s1)) = set (keys ?d) \<union> set (inserts ?evs1)"
    by (simp only: keys_created i1 set_map)
  from Cons.IH [of ?s1] obtain evs2 where
    t2: "trace (added c E ?s1) = trace ?s1 @ evs2" and
    k2: "set (keys (actors (added c E ?s1))) = set (keys (actors ?s1)) \<union> set (inserts evs2)" and
    o2: "(\<forall>h'\<in>set (handles E). carla_id h' = kc \<longrightarrow> map_option carla_id (parent h') = Some kp) \<and>
       kp \<notin> set (keys (actors ?s1)) \<longrightarrow> preceded kp kc (inserts evs2)"
    by blast
  let ?evs = "?evs1 @ evs2"
  have t: "trace (added c (a # E) s) = trace s @ ?evs"
    using t1 t2 by (simp only: step append_assoc)
  have k: "set (keys (actors (added c (a # E) s))) = set (keys ?d) \<union> set (inserts ?evs)"
    using k1 k2 by (simp only: step inserts_append set_append Un_assoc)
  have o: "(\<forall>h'\<in>set (handles (a # E)). carla_id h' = kc \<longrightarrow>
              map_option carla_id (parent h') = Some kp) \<and>
       kp \<notin> set (keys ?d) \<longrightarrow> preceded kp kc (inserts ?evs)"
  proof
    assume h: "(\<forall>h'\<in>set (handles (a # E)). carla_id h' = kc \<longrightarrow>
              map_option carla_id (parent h') = Some kp) \<and> kp \<notin> set (keys ?d)"
    then have rest: "\<forall>h'\<in>set (handles E). carla_id h' = kc \<longrightarrow>
              map_option carla_id (parent h') = Some kp"
      by (simp add: handles_def)
    have "set ?chain \<subseteq> set (handles (a # E))"
      using pending_ancestors [of ?d a] by (auto simp: handles_def)
    with h have own: "\<forall>h'\<in>set ?chain. carla_id h' = kc \<longrightarrow>
              map_option carla_id (parent h') = Some kp"
      by blast
    have p1: "preceded kp kc (inserts ?evs1)"
    proof (cases "carla_id a \<in> set (keys ?d)")
      case True
      then show ?thesis by simp
    next
      case False
      then have ch: "?chain = pending ?d a @ [a]" by simp
      from own have "\<forall>h'\<in>set (pending ?d a @ [a]). carla_id h' = kc \<longrightarrow>
              map_option carla_id (parent h') = Some kp"
        by (simp only: ch)
      with h have "preceded kp kc (map carla_id (pending ?d a @ [a]))"
        using preceded_chain [of ?d a kc kp] by blast
      then show ?thesis by (simp only: ch inserts_created)
    qed
    have "kp \<in> set (inserts ?evs1) \<or> preceded kp kc (inserts evs2)"
    proof (cases "kp \<in> set (inserts ?evs1)")
      case True
      then show ?thesis ..
    next
      case False
      with h k1 have "kp \<notin> set (keys (actors ?s1))" by simp
      with rest o2 show ?thesis by blast
    qed
    with p1 show "preceded kp kc (inserts ?evs)"
      by (simp only: inserts_append preceded_append)
  qed
  from t k o show ?case by blast
qed

lemma remove_old_final: "\<exists>s'. final (remove_old c ids ks s) = Some s'"
proof (induction ks arbitrary: s)
  case Nil
  show ?case by (simp add: final_def)
next
  case (Cons k ks)
  show ?case
  proof (cases "truthy (if k \<notin> set ids then Some k else None)")
    case False
    with Cons.IH [of s] show ?thesis by simp
  next
    case True
    let ?s1 = "logwarn (Remove_Actor k) s"
    let ?s2 = "emit (Registry_delete k (update_lock ?s1))
                 (?s1\<lparr>actors := AList.delete k (actors ?s1)\<rparr>)"
    from True Cons.IH [of ?s2] show ?thesis
      by (simp add: final_def Let_def)
  qed
qed

lemma remove_old_keys:
  "remove_old c ids ks s = Returned s' \<Longrightarrow>
   set (keys (actors s')) = set (keys (actors s)) - {k \<in> set ks. k \<notin> set ids \<and> k \<noteq> 0}"
proof (induction ks arbitrary: s)
  case Nil
  then show ?case by simp
next
  case (Cons k ks)
  show ?case
  proof (cases "k \<notin> set ids \<and> k \<noteq> 0")
    case False
    then have "remove_old c ids (k # ks) s = remove_old c ids ks s"
      by (auto simp: truthy_def)
    with Cons.prems Cons.IH [of s] False show ?thesis by auto
  next
    case True
    let ?s1 = "logwarn (Remove_Actor k) s"
    let ?s2 = "emit (Registry_delete k (update_lock ?s1))
                 (?s1\<lparr>actors := AList.delete k (actors ?s1)\<rparr>)"
    have k2: "set (keys (actors ?s2)) = set (keys (actors s)) - {k}"
      by (auto simp: logwarn_def emit_def keys_def AList.delete_keys)
    from True Cons.prems have "remove_old c ids ks ?s2 = Returned s'"
      by (simp add: truthy_def Let_def logwarn_def emit_def split: if_splits)
    from Cons.IH [OF this] k2 True show ?thesis by auto
  qed
qed

lemma remove_old_returns:
  assumes "\<not> keys_view c" and "distinct ks" and "set ks \<subseteq> set (keys (actors s))"
  shows "\<exists>s'. remove_old c ids ks s = Returned s'"
  using assms(2,3)
proof (induction ks arbitrary: s)
  case Nil
  show ?case by simp
next
  case (Cons k ks)
  show ?case
  proof (cases "k \<notin> set ids \<and> k \<noteq> 0")
    case False
    then have "remove_old c ids (k # ks) s = remove_old c ids ks s"
      by (auto simp: truthy_def)
    with Cons.IH [of s] Cons.prems show ?thesis by simp
  next
    case True
    let ?s1 = "logwarn (Remove_Actor k) s"
    let ?s2 = "emit (Registry_delete k (update_lock ?s1))
                 (?s1\<lparr>actors := AList.delete k (actors ?s1)\<rparr>)"
    have k2: "set (keys (actors ?s2)) = set (keys (actors s)) - {k}"
      by (auto simp: logwarn_def emit_def keys_def AList.delete_keys)
    with Cons.prems have "distinct ks" "set ks \<subseteq> set (keys (actors ?s2))" by auto
    from Cons.IH [OF this] obtain s' where "remove_old c ids ks ?s2 = Returned s'" ..
    with True Cons.prems assms(1) have "remove_old c ids (k # ks) s = Returned s'"
      by (simp add: truthy_def Let_def logwarn_def emit_def)
    then show ?thesis ..
  qed
qed

lemma distinct_created:
  "distinct (keys (actors s)) \<Longrightarrow> distinct (keys (actors (foldl (created c d) s cas)))"
  by (induction cas arbitrary: s) (simp_all add: created_def keys_def AList.distinct_update)

lemma distinct_added:
  "distinct (keys (actors s)) \<Longrightarrow> distinct (keys (actors (added c E s)))"
  by (induction E arbitrary: s) (simp_all add: distinct_created del: foldl_append)

text \<open>
  The pass returns when the update lock is free, the registry is a dictionary and
  \<^verbatim>\<open>keys()\<close> is a list; then the registered ids other than 0 are those of the enumeration.
\<close>

lemma update_actors_returns:
  assumes "\<not> update_lock s" and "distinct (keys (actors s))" and "\<not> keys_view c"
  shows "\<exists>s'. update_actors c E s = Returned s'"
  using remove_old_returns [OF assms(3) distinct_added [OF assms(2), of c E],
      of "added c E s" "map carla_id E"] assms(1)
  by (simp add: update_actors_def add_new_eq)

lemma update_actors_keys:
  assumes "\<not> update_lock s" and "update_actors c E s = Returned s'"
  shows "set (keys (actors s')) - {0} = carla_id ` set E - {0}"
proof -
  from assms have "remove_old c (map carla_id E) (keys (actors (added c E s))) (added c E s) =
      Returned s'"
    by (simp add: update_actors_def add_new_eq)
  from remove_old_keys [OF this] keys_added_all [of E c s] show ?thesis by auto
qed

text \<open>
  C6 (parent before child), as amended.  Take a reconciliation pass started with the update
  lock free, and in its enumeration a handle \<open>h\<close> with parent handle \<open>p\<close>, neither id
  registered, where every handle of the enumeration (parents included) that carries the id of
  \<open>h\<close> has a parent with the id of \<open>p\<close>.  Then the pass does not block, and among the
  insertions it makes, in whatever order the enumeration lists the handles, the first
  insertion of the child's id comes after an insertion of the parent's id.  When the pass
  returns, the child is registered; the parent is registered when its id occurs in the
  enumeration, and is not when its id is absent from the enumeration and is not 0: such a
  parent is removed again by the second loop of the same pass.
\<close>

theorem parent_inserted_before_child:
  assumes "\<not> update_lock s"
    and "h \<in> set E" and "parent h = Some p"
    and "carla_id h \<notin> set (keys (actors s))" and "carla_id p \<notin> set (keys (actors s))"
    and "\<forall>h'\<in>set (handles E). carla_id h' = carla_id h \<longrightarrow>
           map_option carla_id (parent h') = Some (carla_id p)"
  shows "\<exists>s' new. final (update_actors c E s) = Some s' \<and> trace s' = trace s @ new \<and>
           (\<exists>xs1 xs2. inserts new = xs1 @ carla_id h # xs2 \<and>
                      carla_id h \<notin> set xs1 \<and> carla_id p \<in> set xs1) \<and>
           (returned (update_actors c E s) = Some s' \<longrightarrow>
              carla_id h \<in> set (keys (actors s')) \<and>
              (carla_id p \<in> carla_id ` set E \<longrightarrow> carla_id p \<in> set (keys (actors s'))) \<and>
              (carla_id p \<notin> carla_id ` set E \<and> carla_id p \<noteq> 0 \<longrightarrow>
                 carla_id p \<notin> set (keys (actors s'))))"
proof -
  let ?s1 = "added c E s"
  let ?rem = "remove_old c (map carla_id E) (keys (actors ?s1)) ?s1"
  have ua: "update_actors c E s = ?rem"
    using assms(1) by (simp add: update_actors_def add_new_eq)
  from added_order [of c E s "carla_id h" "carla_id p"] assms(5,6) obtain evs1 where
    t1: "trace ?s1 = trace s @ evs1" and
    k1: "set (keys (actors ?s1)) = set (keys (actors s)) \<union> set (inserts evs1)" and
    o1: "preceded (carla_id p) (carla_id h) (inserts evs1)"
    by blast
  from keys_added_all [of E c s] assms(2) have "carla_id h \<in> set (keys (actors ?s1))"
    by auto
  with k1 assms(4) have hin: "carla_id h \<in> set (inserts evs1)" by simp
  from preceded_split [OF o1 hin] obtain xs1 xs2 where
    split: "inserts evs1 = xs1 @ carla_id h # xs2" "carla_id h \<notin> set xs1" "carla_id p \<in> set xs1"
    by blast
  then have pin: "carla_id p \<in> set (keys (actors ?s1))" using k1 by simp
  from remove_old_final [of c "map carla_id E" "keys (actors ?s1)" ?s1] obtain s' where
    fin: "final ?rem = Some s'" ..
  from remove_old_trace [OF fin] obtain evs2 where
    t2: "trace s' = trace ?s1 @ evs2" and
    sh: "\<forall>e\<in>set evs2. (\<exists>k. e = Logwarn (Remove_Actor k)) \<or> is_delete e"
    by blast
  have tr: "trace s' = trace s @ (evs1 @ evs2)" using t1 t2 by simp
  have ins: "inserts (evs1 @ evs2) = xs1 @ carla_id h # xs2"
    using split(1) inserts_removal [OF sh] by (simp add: inserts_append)
  have reg: "returned (update_actors c E s) = Some s' \<longrightarrow>
              carla_id h \<in> set (keys (actors s')) \<and>
              (carla_id p \<in> carla_id ` set E \<longrightarrow> carla_id p \<in> set (keys (actors s'))) \<and>
              (carla_id p \<notin> carla_id ` set E \<and> carla_id p \<noteq> 0 \<longrightarrow>
                 carla_id p \<notin> set (keys (actors s')))"
  proof
    assume "returned (update_actors c E s) = Some s'"
    then have "?rem = Returned s'"
      by (simp add: ua returned_def split: outcome.splits)
    from remove_old_keys [OF this] pin \<open>carla_id h \<in> set (keys (actors ?s1))\<close> assms(2)
    show "carla_id h \<in> set (keys (actors s')) \<and>
              (carla_id p \<in> carla_id ` set E \<longrightarrow> carla_id p \<in> set (keys (actors s'))) \<and>
              (carla_id p \<notin> carla_id ` set E \<and> carla_id p \<noteq> 0 \<longrightarrow>
                 carla_id p \<notin> set (keys (actors s')))"
      by auto
  qed
  from fin tr ins split(2,3) reg show ?thesis
    by (simp only: ua) blast
qed

theorem parent_inserted_before_child_witness:
  "\<not> update_lock init \<and> depth_camera \<in> set [depth_camera, hero_car] \<and>
   parent depth_camera = Some hero_car \<and>
   carla_id depth_camera \<notin> set (keys (actors init)) \<and>
   carla_id hero_car \<notin> set (keys (actors init)) \<and>
   handles [depth_camera, hero_car] = [hero_car, depth_camera, hero_car] \<and>
   map_option (keys \<circ> actors) (returned (update_actors (quiet False) [depth_camera, hero_car] init))
     = Some [1, 2] \<and>
   map_option (inserts \<circ> trace) (returned (update_actors (quiet False) [depth_camera, hero_car] init))
     = Some [1, 2]"
proof -
  have free: "\<not> update_lock init" by (simp add: init_def)
  have mem: "depth_camera \<in> set [depth_camera, hero_car]" by simp
  have par: "parent depth_camera = Some hero_car" by (simp add: depth_camera_def)
  have new_child: "carla_id depth_camera \<notin> set (keys (actors init))"
    by (simp add: init_def keys_def)
  have new_parent: "carla_id hero_car \<notin> set (keys (actors init))"
    by (simp add: init_def keys_def)
  have hs: "handles [depth_camera, hero_car] = [hero_car, depth_camera, hero_car]"
    by (simp add: handles_def depth_camera_def hero_car_def)
  have same: "\<forall>h'\<in>set (handles [depth_camera, hero_car]). carla_id h' = carla_id depth_camera \<longrightarrow>
      map_option carla_id (parent h') = Some (carla_id hero_car)"
    by (simp add: hs) (simp add: depth_camera_def hero_car_def)
  from parent_inserted_before_child [OF free mem par new_child new_parent same, of "quiet False"]
  have "\<exists>s'. final (update_actors (quiet False) [depth_camera, hero_car] init) = Some s'"
    by blast
  moreover have "returned (update_actors (quiet False) [depth_camera, hero_car] init) =
      Some (init\<lparr>actors := [(1, ActorObj EgoVehicle hero_car None),
                            (2, ActorObj Sensor depth_camera (Some (ActorObj EgoVehicle hero_car None)))],
                 pseudo_actors := pseudo_actors init @
                   [ObjectSensor (Some (ActorObj EgoVehicle hero_car None)) ''objects'' (Some 1)],
                 trace := [Logwarn (Created_Actor EgoVehicle 1 ''vehicle.tesla.model3''),
                           Registry_insert 1 True,
                           Logwarn (Created_Actor Sensor 2 ''sensor.camera.depth''),
                           Registry_insert 2 True]\<rparr>)"
    by (simp add: bridge_defs Let_def depth_camera_def hero_car_def)
  ultimately show ?thesis
    using free mem par new_child new_parent hs by (simp add: keys_def)
qed

text \<open>
  C6 as stated has the parent's entry exist after the pass.  For the enumeration that
  holds only the depth camera, whose parent is the unregistered ego vehicle of id 1, the
  registry after the pass holds id 2 alone, under either interpreter.
\<close>

theorem unlisted_parent_is_removed_again:
  "map_option (keys \<circ> actors) (final (update_actors (quiet False) [depth_camera] init)) = Some [2] \<and>
   map_option (keys \<circ> actors) (final (update_actors (quiet True) [depth_camera] init)) = Some [2]"
  by (simp add: bridge_defs Let_def depth_camera_def hero_car_def AList.delete_eq)

end
